theory Spec2Isabelle
  imports Main "HOL-Library.Word"
begin

section \<open>Liquid flow of dragonfly: block/liquid.go\<close>

text \<open>
  A shallow embedding of \<^verbatim>\<open>dragonfly/block/liquid.go\<close>: the tick of one liquid block
  (\<^verbatim>\<open>tickLiquid\<close>), the flow of a liquid into a position (\<^verbatim>\<open>flowInto\<close>) and the
  breadth-first search for the shortest ways down (\<^verbatim>\<open>calculateLiquidPaths\<close>).

  Go's \<^verbatim>\<open>int\<close> (coordinates, depth, decay, path lengths) is modelled by unbounded
  integers and naturals: the values at stake are block coordinates and depths of a few
  units, far from the 64-bit range. The \<^verbatim>\<open>int8\<close> depth of a search node is an
  \<open>8 word\<close>, whose arithmetic wraps around as Go's does and which is compared through
  \<open>sint\<close>.
\<close>

subsection \<open>Positions\<close>

text \<open>\<^verbatim>\<open>world.BlockPos\<close> is \<^verbatim>\<open>[3]int\<close>: x, y and z.\<close>

type_synonym BlockPos = "int \<times> int \<times> int"

definition posX :: "BlockPos \<Rightarrow> int" where
  "posX p = fst p"

definition posY :: "BlockPos \<Rightarrow> int" where
  "posY p = fst (snd p)"

definition posZ :: "BlockPos \<Rightarrow> int" where
  "posZ p = snd (snd p)"

text \<open>
  Modelled from the spec: \<^verbatim>\<open>BlockPos.Add\<close> and \<^verbatim>\<open>BlockPos.Neighbours\<close> belong to package
  \<^verbatim>\<open>world\<close>, which is not in src. Addition is componentwise; \<^verbatim>\<open>Neighbours\<close> calls its
  argument on the six positions that share a face with the position (liquid.go tells the
  ones above, below and at the same height apart by their y). The callback of the source
  becomes a list that the callers walk through in order.
\<close>

definition Add :: "BlockPos \<Rightarrow> BlockPos \<Rightarrow> BlockPos" where
  "Add p q = (posX p + posX q, posY p + posY q, posZ p + posZ q)"

definition Neighbours :: "BlockPos \<Rightarrow> BlockPos list" where
  "Neighbours p =
     [(posX p + 1, posY p, posZ p), (posX p - 1, posY p, posZ p),
      (posX p, posY p + 1, posZ p), (posX p, posY p - 1, posZ p),
      (posX p, posY p, posZ p + 1), (posX p, posY p, posZ p - 1)]"

subsection \<open>Liquids, blocks and the world\<close>

text \<open>
  Modelled from the spec: the implementations of the \<^verbatim>\<open>Liquid\<close> interface (water, lava)
  are not in src. A liquid is the record of what the interface methods return:
  \<^verbatim>\<open>LiquidDepth()\<close>, \<^verbatim>\<open>SpreadDecay()\<close>, \<^verbatim>\<open>LiquidFalling()\<close> and \<^verbatim>\<open>LiquidType()\<close>.
  \<open>LiquidRegistered\<close> tells whether the runtime id of the liquid's block is a key of the
  table \<^verbatim>\<open>world_internal.LiquidRemovable\<close>, that is, whether the liquid exposes the
  liquid-removable capability too. \<^verbatim>\<open>WithDepth\<close> returns the liquid with the depth
  and the falling flag passed.
\<close>

record liquid =
  LiquidDepth :: int
  SpreadDecay :: int
  LiquidFalling :: bool
  LiquidType :: string
  LiquidRegistered :: bool

definition WithDepth :: "liquid \<Rightarrow> int \<Rightarrow> bool \<Rightarrow> liquid" where
  "WithDepth b depth falling = b\<lparr>LiquidDepth := depth, LiquidFalling := falling\<rparr>"

text \<open>
  A block is seen by liquid.go through type assertions only: \<^verbatim>\<open>.(Air)\<close>, \<^verbatim>\<open>.(Liquid)\<close>,
  \<^verbatim>\<open>.(LiquidRemovable)\<close> (with what \<^verbatim>\<open>HasLiquidDrops()\<close> returns) and
  \<^verbatim>\<open>.(world.Item)\<close>. Any block that is neither air nor a liquid is an \<open>OtherBlock\<close>,
  carrying its liquid-removable capability (\<open>None\<close> when it has none, else the result of
  \<^verbatim>\<open>HasLiquidDrops()\<close>) and whether it implements \<^verbatim>\<open>world.Item\<close>.
\<close>

datatype block =
    Air
  | LiquidBlock liquid
  | OtherBlock "bool option" bool

text \<open>
  Modelled from the spec: air.go is not in src. The empty block is liquid-removable and
  has no drops (liquids flow into it without breaking anything).
\<close>

fun asLiquidRemovable :: "block \<Rightarrow> bool option" where
  "asLiquidRemovable Air = Some False"
| "asLiquidRemovable (LiquidBlock l) = (if LiquidRegistered l then Some False else None)"
| "asLiquidRemovable (OtherBlock r it) = r"

fun asItem :: "block \<Rightarrow> bool" where
  "asItem (OtherBlock r it) = it"
| "asItem _ = False"

text \<open>
  The trace records, in order, what the liquid code does to its surroundings: every
  \<^verbatim>\<open>PlaceBlock\<close> and \<^verbatim>\<open>BreakBlock\<close> it issues, every call of a liquid's \<^verbatim>\<open>Harden\<close>
  (the existing liquid, its position, the position the flow comes from), and every
  entry into \<^verbatim>\<open>flowInto\<close> (liquid, source position, target position, falling).
\<close>

datatype event =
    Placed BlockPos block
  | Broken BlockPos
  | Hardened liquid BlockPos BlockPos
  | Flowed liquid BlockPos BlockPos bool

record world =
  blocks :: "BlockPos \<Rightarrow> block"
  trace :: "event list"

text \<open>
  Modelled from the spec: \<^verbatim>\<open>world.World\<close> is not in src. \<^verbatim>\<open>Block\<close> reads the block at a
  position, \<^verbatim>\<open>PlaceBlock\<close> overwrites it and \<^verbatim>\<open>BreakBlock\<close> destroys it, leaving the
  position empty.
\<close>

definition Block :: "world \<Rightarrow> BlockPos \<Rightarrow> block" where
  "Block w pos = blocks w pos"

definition PlaceBlock :: "world \<Rightarrow> BlockPos \<Rightarrow> block \<Rightarrow> world" where
  "PlaceBlock w pos b = w\<lparr>blocks := (blocks w)(pos := b), trace := trace w @ [Placed pos b]\<rparr>"

definition BreakBlock :: "world \<Rightarrow> BlockPos \<Rightarrow> world" where
  "BreakBlock w pos = w\<lparr>blocks := (blocks w)(pos := Air), trace := trace w @ [Broken pos]\<rparr>"

text \<open>
  \<^verbatim>\<open>Harden\<close> is implemented by each liquid outside this file; it may change blocks of the
  world. It is a parameter of the model: a function from the hardening liquid, its
  position, the blocks of the world and the position flown from, to the blocks it leaves.
  The boolean it returns is discarded by its only caller here.
\<close>

type_synonym hardener = "liquid \<Rightarrow> BlockPos \<Rightarrow> (BlockPos \<Rightarrow> block) \<Rightarrow> BlockPos \<Rightarrow> (BlockPos \<Rightarrow> block)"

definition Harden :: "hardener \<Rightarrow> liquid \<Rightarrow> BlockPos \<Rightarrow> world \<Rightarrow> BlockPos \<Rightarrow> world" where
  "Harden H l pos w src =
     w\<lparr>blocks := H l pos (blocks w) src, trace := trace w @ [Hardened l pos src]\<rparr>"

text \<open>The two panics of a tick: the explicit one of \<^verbatim>\<open>flowInto\<close>, and indexing an empty path.\<close>

datatype panic =
    DropsWithoutItem world
  | IndexOutOfRange world

subsection \<open>source, sourceAround, canFlowInto\<close>

definition source :: "liquid \<Rightarrow> bool" where
  "source b \<longleftrightarrow> LiquidDepth b = 8 \<and> \<not> LiquidFalling b"

definition sourceAround :: "liquid \<Rightarrow> BlockPos \<Rightarrow> world \<Rightarrow> bool" where
  "sourceAround b pos w =
     list_ex (\<lambda>neighbour.
        if posY neighbour = posY pos - 1 then False
        else (case Block w neighbour of
                LiquidBlock side \<Rightarrow>
                  if LiquidType side \<noteq> LiquidType b then False
                  else posY neighbour = posY pos + 1 \<or> source side
                       \<or> LiquidDepth side > LiquidDepth b
              | _ \<Rightarrow> False))
       (Neighbours pos)"

text \<open>
  Modelled from the spec: \<^verbatim>\<open>block_internal.World_runtimeID\<close> and the table
  \<^verbatim>\<open>world_internal.LiquidRemovable\<close> are not in src. The runtime id 0 is the empty
  block, and the table holds the blocks that expose the liquid-removable capability.
\<close>

definition canFlowInto :: "liquid \<Rightarrow> world \<Rightarrow> BlockPos \<Rightarrow> bool \<Rightarrow> bool" where
  "canFlowInto b w pos sideways =
     (if Block w pos = Air then True
      else
        let ok = (asLiquidRemovable (Block w pos) \<noteq> None) in
        if ok \<and> sideways
           \<and> (case Block w pos of
                 LiquidBlock liq \<Rightarrow> LiquidDepth liq = 8 \<or> LiquidType liq \<noteq> LiquidType b
               | _ \<Rightarrow> False)
        then False
        else ok)"

subsection \<open>flowInto\<close>

definition flowInto ::
  "hardener \<Rightarrow> liquid \<Rightarrow> BlockPos \<Rightarrow> BlockPos \<Rightarrow> world \<Rightarrow> bool \<Rightarrow> panic + (bool \<times> world)" where
  "flowInto H b src pos w0 falling =
     (let w = w0\<lparr>trace := trace w0 @ [Flowed b src pos falling]\<rparr>;
          newDepth = (if falling then LiquidDepth b else LiquidDepth b - SpreadDecay b)
      in
      if newDepth \<le> 0 \<and> \<not> falling then Inr (False, w)
      else
        let existing = Block w pos in
        (case existing of
           LiquidBlock existingLiquid \<Rightarrow>
             if LiquidType existingLiquid = LiquidType b then
               (if LiquidDepth existingLiquid \<ge> newDepth \<or> LiquidFalling existingLiquid
                then Inr (True, w)
                else Inr (True, PlaceBlock w pos (LiquidBlock (WithDepth b newDepth falling))))
             else Inr (False, Harden H existingLiquid pos w src)
         | _ \<Rightarrow>
             (case asLiquidRemovable existing of
                None \<Rightarrow> Inr (False, w)
              | Some drops \<Rightarrow>
                  let w1 = (if existing \<noteq> Air then BreakBlock w pos else w) in
                  if drops \<and> \<not> asItem existing then Inl (DropsWithoutItem w1)
                  else Inr (True, PlaceBlock w1 pos (LiquidBlock (WithDepth b newDepth falling))))))"

subsection \<open>The search for the shortest paths\<close>

text \<open>
  A node of the search: x, z, the remaining depth (\<^verbatim>\<open>int8\<close>) and the node it was
  reached from (\<^verbatim>\<open>nil\<close> for the node the search starts at).
\<close>

datatype liquidNode =
  LiquidNode (node_x: int) (node_z: int) (node_depth: "8 word") (previous: "liquidNode option")

type_synonym liquidPath = "BlockPos list"

definition neighbours ::
  "liquidNode \<Rightarrow> 8 word \<Rightarrow> liquidNode \<times> liquidNode \<times> liquidNode \<times> liquidNode" where
  "neighbours node decay =
     (LiquidNode (node_x node - 1) (node_z node) (node_depth node - decay) (Some node),
      LiquidNode (node_x node + 1) (node_z node) (node_depth node - decay) (Some node),
      LiquidNode (node_x node) (node_z node - 1) (node_depth node - decay) (Some node),
      LiquidNode (node_x node) (node_z node + 1) (node_depth node - decay) (Some node))"

fun Len :: "liquidNode \<Rightarrow> nat" where
  "Len (LiquidNode x z d None) = 0"
| "Len (LiquidNode x z d (Some p)) = Len p + 1"

fun Path :: "liquidNode \<Rightarrow> BlockPos \<Rightarrow> liquidPath" where
  "Path (LiquidNode x z d None) src = []"
| "Path (LiquidNode x z d (Some p)) src = Path p src @ [(x, posY src, z)]"

text \<open>
  The queue: a buffer that only grows, a read cursor and the length of the shortest
  path found so far. The pool hands out a queue that is new or has been reset:
  empty, cursor 0, bound \<^verbatim>\<open>math.MaxInt8\<close>.
\<close>

record liquidQueue =
  nodes :: "liquidNode list"
  i :: nat
  shortestPath :: nat

definition newQueue :: liquidQueue where
  "newQueue = \<lparr>nodes = [], i = 0, shortestPath = 127\<rparr>"

definition PushBack :: "liquidQueue \<Rightarrow> liquidNode \<Rightarrow> liquidQueue" where
  "PushBack q node = q\<lparr>nodes := nodes q @ [node]\<rparr>"

definition Front :: "liquidQueue \<Rightarrow> liquidNode \<times> liquidQueue" where
  "Front q = (nodes q ! i q, q\<lparr>i := i q + 1\<rparr>)"

definition queueLen :: "liquidQueue \<Rightarrow> nat" where
  "queueLen q = length (nodes q) - i q"

definition spreadNeighbour ::
  "liquid \<Rightarrow> BlockPos \<Rightarrow> world \<Rightarrow> liquidNode \<Rightarrow> liquidQueue \<Rightarrow> bool \<times> liquidQueue" where
  "spreadNeighbour b src w node queue =
     (if sint (node_depth node + 3) \<le> 0 then (False, queue)
      else if Len node > shortestPath queue then (False, queue)
      else if \<not> canFlowInto b w (node_x node, posY src, node_z node) True then (False, queue)
      else if canFlowInto b w (node_x node, posY src - 1, node_z node) False then (True, queue)
      else (False, PushBack queue node))"

text \<open>
  One of the four \<^verbatim>\<open>if spreadNeighbour(...) { ... }\<close> statements of the loop body: when
  the neighbour ends a path, the bound is set to its length and its path is appended.
\<close>

definition spreadInto ::
  "liquid \<Rightarrow> BlockPos \<Rightarrow> world \<Rightarrow> liquidNode \<Rightarrow> liquidQueue \<times> liquidPath list
     \<Rightarrow> liquidQueue \<times> liquidPath list" where
  "spreadInto b pos w neigh s =
     (case spreadNeighbour b pos w neigh (fst s) of
        (True, queue) \<Rightarrow> (queue\<lparr>shortestPath := Len neigh\<rparr>, snd s @ [Path neigh pos])
      | (False, queue) \<Rightarrow> (queue, snd s))"

text \<open>The body of the loop, for a queue that is not empty.\<close>

definition searchStep ::
  "liquid \<Rightarrow> BlockPos \<Rightarrow> world \<Rightarrow> 8 word \<Rightarrow> liquidQueue \<times> liquidPath list
     \<Rightarrow> liquidQueue \<times> liquidPath list" where
  "searchStep b pos w decay s =
     (case Front (fst s) of
        (node, queue) \<Rightarrow>
          (case neighbours node (decay * 2) of
             (neighA, neighB, neighC, neighD) \<Rightarrow>
               spreadInto b pos w neighD
                 (spreadInto b pos w neighC
                   (spreadInto b pos w neighB
                     (spreadInto b pos w neighA (queue, snd s))))))"

text \<open>
  The loop itself may, as far as its definition goes, run forever: \<open>None\<close> stands for a
  search that does not return.
\<close>

partial_function (option) searchLoop ::
  "liquid \<Rightarrow> BlockPos \<Rightarrow> world \<Rightarrow> 8 word \<Rightarrow> liquidQueue \<times> liquidPath list
     \<Rightarrow> liquidPath list option" where
  "searchLoop b pos w decay s =
     (if queueLen (fst s) = 0 then Some (snd s)
      else searchLoop b pos w decay (searchStep b pos w decay s))"

declare searchLoop.simps [code]

definition calculateLiquidPaths :: "liquid \<Rightarrow> BlockPos \<Rightarrow> world \<Rightarrow> liquidPath list option" where
  "calculateLiquidPaths b pos w =
     searchLoop b pos w (word_of_int (SpreadDecay b))
       (PushBack newQueue (LiquidNode (posX pos) (posZ pos) (word_of_int (LiquidDepth b)) None), [])"

subsection \<open>spreadOutwards and tickLiquid\<close>

text \<open>
  The walk of \<^verbatim>\<open>spreadOutwards\<close> over the neighbours: a flow at every neighbour of the
  same height. A panic ends the walk.
\<close>

fun spreadEach ::
  "hardener \<Rightarrow> liquid \<Rightarrow> BlockPos \<Rightarrow> BlockPos list \<Rightarrow> world \<Rightarrow> panic + world" where
  "spreadEach H b pos [] w = Inr w"
| "spreadEach H b pos (neighbour # rest) w =
     (if posY neighbour = posY pos then
        (case flowInto H b pos neighbour w False of
           Inl p \<Rightarrow> Inl p
         | Inr (ok, w') \<Rightarrow> spreadEach H b pos rest w')
      else spreadEach H b pos rest w)"

definition spreadOutwards :: "hardener \<Rightarrow> liquid \<Rightarrow> BlockPos \<Rightarrow> world \<Rightarrow> panic + world" where
  "spreadOutwards H b pos w = spreadEach H b pos (Neighbours pos) w"

text \<open>
  The loop \<^verbatim>\<open>for _, path := range paths\<close> of \<^verbatim>\<open>tickLiquid\<close>: a flow into the first
  position of every path that is not longer than \<^verbatim>\<open>smallestLen\<close>. Reading
  \<^verbatim>\<open>path[0]\<close> of an empty path panics.
\<close>

fun flowPaths ::
  "hardener \<Rightarrow> liquid \<Rightarrow> BlockPos \<Rightarrow> nat \<Rightarrow> liquidPath list \<Rightarrow> world \<Rightarrow> panic + world" where
  "flowPaths H b pos smallestLen [] w = Inr w"
| "flowPaths H b pos smallestLen (path # rest) w =
     (if length path \<le> smallestLen then
        (case path of
           [] \<Rightarrow> Inl (IndexOutOfRange w)
         | first # _ \<Rightarrow>
             (case flowInto H b pos first w False of
                Inl p \<Rightarrow> Inl p
              | Inr (ok, w') \<Rightarrow> flowPaths H b pos smallestLen rest w'))
      else flowPaths H b pos smallestLen rest w)"

text \<open>
  Lines 51 to 56 of \<^verbatim>\<open>tickLiquid\<close>: the liquid that goes on to the rest of the tick and
  the world after the fall.
\<close>

definition fall ::
  "hardener \<Rightarrow> liquid \<Rightarrow> BlockPos \<Rightarrow> world \<Rightarrow> bool \<Rightarrow> panic + (liquid \<times> world)" where
  "fall H b pos w canFlowBelow =
     (if LiquidFalling b \<and> \<not> canFlowBelow then Inr (WithDepth b 8 True, w)
      else if canFlowBelow then
        (case flowInto H (WithDepth b 8 True) pos (Add pos (0, -1, 0)) w True of
           Inl p \<Rightarrow> Inl p
         | Inr (ok, w') \<Rightarrow> Inr (b, w'))
      else Inr (b, w))"

text \<open>
  Lines 58 to 76 of \<^verbatim>\<open>tickLiquid\<close>: the check of the spread capacity and the lateral
  spread, for the liquid and the world that lines 51 to 56 leave. \<open>None\<close> stands for a
  search that does not return.
\<close>

definition spread ::
  "hardener \<Rightarrow> liquid \<Rightarrow> BlockPos \<Rightarrow> world \<Rightarrow> bool \<Rightarrow> (panic + world) option" where
  "spread H b pos w canFlowBelow =
     (if LiquidDepth b \<le> SpreadDecay b then Some (Inr w)
      else if source b \<or> \<not> canFlowBelow then
        (case calculateLiquidPaths b pos w of
           None \<Rightarrow> None
         | Some paths \<Rightarrow>
             (case paths of
                [] \<Rightarrow> Some (spreadOutwards H b pos w)
              | shortest # _ \<Rightarrow> Some (flowPaths H b pos (length shortest) paths w)))
      else Some (Inr w))"

text \<open>
  The tick of a liquid: \<open>None\<close> if the search does not return, else the panic or the
  world the tick leaves.
\<close>

definition tickLiquid ::
  "hardener \<Rightarrow> liquid \<Rightarrow> BlockPos \<Rightarrow> world \<Rightarrow> (panic + world) option" where
  "tickLiquid H b pos w =
     (if \<not> source b \<and> \<not> sourceAround b pos w then
        (if LiquidDepth b - 4 \<le> 0 then Some (Inr (PlaceBlock w pos Air))
         else Some (Inr (PlaceBlock w pos
                (LiquidBlock (WithDepth b (LiquidDepth b - 2 * SpreadDecay b) False)))))
      else
        let canFlowBelow = canFlowInto b w (Add pos (0, -1, 0)) False in
        (case fall H b pos w canFlowBelow of
           Inl p \<Rightarrow> Some (Inl p)
         | Inr (b', w') \<Rightarrow> spread H b' pos w' canFlowBelow))"

subsection \<open>Observations\<close>

text \<open>The world a run leaves, whether it returns or panics, and the trace of that world.\<close>

fun finalWorld :: "panic + world \<Rightarrow> world" where
  "finalWorld (Inl (DropsWithoutItem w)) = w"
| "finalWorld (Inl (IndexOutOfRange w)) = w"
| "finalWorld (Inr w) = w"

definition traceOf :: "panic + world \<Rightarrow> event list" where
  "traceOf r = trace (finalWorld r)"

definition flowTrace :: "panic + (bool \<times> world) \<Rightarrow> event list" where
  "flowTrace r = traceOf (map_sum id snd r)"

text \<open>The events a run adds to the trace of the world it starts in.\<close>

definition issued :: "world \<Rightarrow> panic + world \<Rightarrow> event list" where
  "issued w r = drop (length (trace w)) (traceOf r)"

text \<open>The four neighbours of a position at its height.\<close>

definition horizontal :: "BlockPos \<Rightarrow> BlockPos list" where
  "horizontal pos = filter (\<lambda>neighbour. posY neighbour = posY pos) (Neighbours pos)"

subsection \<open>Concrete liquids, blocks and worlds\<close>

definition origin :: BlockPos where
  "origin = (0, 0, 0)"

definition water :: "int \<Rightarrow> bool \<Rightarrow> liquid" where
  "water depth falling =
     \<lparr>LiquidDepth = depth, SpreadDecay = 1, LiquidFalling = falling,
      LiquidType = ''water'', LiquidRegistered = True\<rparr>"

definition lava :: "int \<Rightarrow> bool \<Rightarrow> liquid" where
  "lava depth falling =
     \<lparr>LiquidDepth = depth, SpreadDecay = 2, LiquidFalling = falling,
      LiquidType = ''lava'', LiquidRegistered = True\<rparr>"

text \<open>A liquid that loses three levels of depth at every block it spreads over.\<close>

definition honey :: "int \<Rightarrow> bool \<Rightarrow> liquid" where
  "honey depth falling =
     \<lparr>LiquidDepth = depth, SpreadDecay = 3, LiquidFalling = falling,
      LiquidType = ''honey'', LiquidRegistered = True\<rparr>"

text \<open>
  Stone cannot be removed by a liquid; a flower can, and drops itself; a block
  registered with drops that is no item is what \<^verbatim>\<open>flowInto\<close> panics on.
\<close>

definition stone :: block where
  "stone = OtherBlock None True"

definition flower :: block where
  "flower = OtherBlock (Some True) True"

definition misregistered :: block where
  "misregistered = OtherBlock (Some True) False"

definition noHarden :: hardener where
  "noHarden l pos bs src = bs"

definition everywhere :: "block \<Rightarrow> world" where
  "everywhere blk = \<lparr>blocks = (\<lambda>pos. blk), trace = []\<rparr>"

definition setBlock :: "world \<Rightarrow> BlockPos \<Rightarrow> block \<Rightarrow> world" where
  "setBlock w pos blk = w\<lparr>blocks := (blocks w)(pos := blk)\<rparr>"

text \<open>
  A source of water on a ledge of stone: the ground drops one step to the west and one
  step to the east of it; to the south the ground holds for one block and drops after
  the second.
\<close>

definition ledge :: world where
  "ledge =
     setBlock (setBlock (setBlock (setBlock (setBlock (setBlock (setBlock (setBlock
       (everywhere stone)
       origin (LiquidBlock (water 8 False)))
       (- 1, 0, 0) Air) (- 1, - 1, 0) Air)
       (1, 0, 0) Air) (1, - 1, 0) Air)
       (0, 0, 1) Air) (0, 0, 2) Air) (0, - 1, 2) Air"

text \<open>
  A falling water of depth 1 at the bottom of a shaft of stone, fed by the falling water
  above it, with one empty position beside it.
\<close>

definition shaft :: world where
  "shaft =
     setBlock (setBlock (setBlock (everywhere stone)
       origin (LiquidBlock (water 1 True)))
       (0, 1, 0) (LiquidBlock (water 8 True)))
       (- 1, 0, 0) Air"

subsection \<open>Notions used in the statements and proofs\<close>

text \<open>
  The sustain check in the words of the specification: the liquid is a source, or a
  liquid of its type that is a source or deeper lies above it or beside it.
\<close>

definition sustainedSpec :: "liquid \<Rightarrow> BlockPos \<Rightarrow> world \<Rightarrow> bool" where
  "sustainedSpec b pos w \<longleftrightarrow>
     source b \<or>
     list_ex (\<lambda>neighbour.
        case Block w neighbour of
          LiquidBlock side \<Rightarrow>
            LiquidType side = LiquidType b \<and> (source side \<or> LiquidDepth side > LiquidDepth b)
        | _ \<Rightarrow> False)
       (Add pos (0, 1, 0) # horizontal pos)"


text \<open>
  The non-falling entries into \<^verbatim>\<open>flowInto\<close> among a list of events: the lateral flows.
\<close>

fun isLateral :: "event \<Rightarrow> bool" where
  "isLateral (Flowed l src pos falling) = (\<not> falling)"
| "isLateral e = False"

definition lateralFlows :: "event list \<Rightarrow> event list" where
  "lateralFlows es = filter isLateral es"

text \<open>
  What the specification says a lateral spread flows into: the four neighbours of the
  same height when the search returns no path, else the first position of every path
  that is not longer than the shortest one.
\<close>

definition lateralTargets :: "liquidPath list \<Rightarrow> BlockPos \<Rightarrow> BlockPos list" where
  "lateralTargets paths pos =
     (if paths = [] then horizontal pos
      else map hd (filter (\<lambda>p. length p \<le> Min (length ` set paths)) paths))"

text \<open>
  The events a call of \<^verbatim>\<open>flowInto\<close> may add to the trace: its own entry, the break
  and the placement at the target (the placement of a liquid of the new depth, which is
  positive unless the flow falls), and the hardening of the liquid at the target.
\<close>

definition flowEvent :: "liquid \<Rightarrow> BlockPos \<Rightarrow> BlockPos \<Rightarrow> bool \<Rightarrow> event \<Rightarrow> bool" where
  "flowEvent b src pos falling e \<longleftrightarrow>
     e = Flowed b src pos falling
     \<or> e = Broken pos
     \<or> (\<exists>l. e = Hardened l pos src)
     \<or> (e = Placed pos (LiquidBlock (WithDepth b
              (if falling then LiquidDepth b else LiquidDepth b - SpreadDecay b) falling))
        \<and> (falling \<or> 0 < LiquidDepth b - SpreadDecay b))"

text \<open>A flow into each position of a list in turn; a panic ends it.\<close>

fun flowAll ::
  "hardener \<Rightarrow> liquid \<Rightarrow> BlockPos \<Rightarrow> BlockPos list \<Rightarrow> world \<Rightarrow> panic + world" where
  "flowAll H b src [] w = Inr w"
| "flowAll H b src (pos # rest) w =
     (case flowInto H b src pos w False of
        Inl p \<Rightarrow> Inl p
      | Inr (ok, w') \<Rightarrow> flowAll H b src rest w')"

text \<open>
  The measure of the search. A node of the queue whose path is \<open>k\<close> steps shorter than
  the bound can still bring \<open>reach k\<close> nodes to the front of the queue: itself and,
  for each of its four neighbours, the nodes that neighbour can bring.
\<close>

fun reach :: "nat \<Rightarrow> nat" where
  "reach 0 = 1"
| "reach (Suc k) = 1 + 4 * reach k"

definition remaining :: "liquidQueue \<Rightarrow> liquidNode list" where
  "remaining q = drop (i q) (nodes q)"

definition searchWeight :: "liquidQueue \<Rightarrow> nat" where
  "searchWeight q = sum_list (map (\<lambda>node. reach (shortestPath q - Len node)) (remaining q))"

text \<open>The four neighbours of a node as a list.\<close>

definition neighbourList :: "liquidNode \<Rightarrow> 8 word \<Rightarrow> liquidNode list" where
  "neighbourList node d = (case neighbours node d of (na, nb, nc, nd) \<Rightarrow> [na, nb, nc, nd])"

text \<open>
  The invariant of the breadth-first order: the nodes still in the queue are sorted by
  the length of their paths, which differ by one at most; once a path is found, all
  paths found have the length of the bound, and no node of the queue is more than one
  step shorter. \<open>level L\<close> is the same in the middle of an iteration, whose node has \<open>L\<close> steps.
\<close>

definition levelled :: "liquidQueue \<times> liquidPath list \<Rightarrow> bool" where
  "levelled s \<longleftrightarrow>
     sorted (map Len (remaining (fst s)))
     \<and> (\<forall>n \<in> set (remaining (fst s)). Len n \<le> Suc (Len (hd (remaining (fst s)))))
     \<and> (snd s \<noteq> [] \<longrightarrow>
          (\<forall>p \<in> set (snd s). length p = shortestPath (fst s))
          \<and> (\<forall>n \<in> set (remaining (fst s)). shortestPath (fst s) \<le> Suc (Len n)))"

definition level :: "nat \<Rightarrow> liquidQueue \<times> liquidPath list \<Rightarrow> bool" where
  "level L s \<longleftrightarrow>
     i (fst s) \<le> length (nodes (fst s))
     \<and> sorted (map Len (remaining (fst s)))
     \<and> (\<forall>n \<in> set (remaining (fst s)). L \<le> Len n \<and> Len n \<le> Suc L)
     \<and> (snd s \<noteq> [] \<longrightarrow>
          (\<forall>p \<in> set (snd s). length p = shortestPath (fst s)) \<and> shortestPath (fst s) \<le> Suc L)"

text \<open>
  A path is headed when it starts at one of the four neighbours of the position; a node
  is rooted when it is the node of the position itself or its path is headed.
\<close>

definition headed :: "BlockPos \<Rightarrow> liquidPath \<Rightarrow> bool" where
  "headed pos p \<longleftrightarrow> (\<exists>first rest. p = first # rest \<and> first \<in> set (horizontal pos))"

definition rooted :: "BlockPos \<Rightarrow> liquidNode \<Rightarrow> bool" where
  "rooted pos node \<longleftrightarrow>
     (previous node = None \<and> node_x node = posX pos \<and> node_z node = posZ pos)
     \<or> headed pos (Path node pos)"

definition allRooted :: "BlockPos \<Rightarrow> liquidQueue \<times> liquidPath list \<Rightarrow> bool" where
  "allRooted pos s \<longleftrightarrow>
     (\<forall>node \<in> set (nodes (fst s)). rooted pos node) \<and> (\<forall>p \<in> set (snd s). headed pos p)"

section \<open>Properties\<close>

lemmas pos_defs = posX_def posY_def posZ_def Add_def Neighbours_def

lemmas example_defs =
  origin_def water_def lava_def honey_def stone_def flower_def misregistered_def
  noHarden_def everywhere_def setBlock_def ledge_def shaft_def

subsection \<open>The decay of a liquid that nothing sustains\<close>

text \<open>
  C1. A liquid that is no source and has no sustaining neighbour only decays: one
  \<^verbatim>\<open>PlaceBlock\<close> at its own position, of air if \<open>depth - 4 \<le> 0\<close> and of the liquid with
  depth \<open>depth - 2 * decay\<close>, not falling, otherwise; the tick returns with nothing else
  done (no flow below, no lateral flow).
\<close>

theorem tickLiquid_decay:
  assumes "\<not> source b" and "\<not> sourceAround b pos w"
  shows "tickLiquid H b pos w =
           Some (Inr (PlaceBlock w pos
             (if LiquidDepth b - 4 \<le> 0 then Air
              else LiquidBlock (WithDepth b (LiquidDepth b - 2 * SpreadDecay b) False))))
         \<and> map_option (issued w) (tickLiquid H b pos w) =
           Some [Placed pos
             (if LiquidDepth b - 4 \<le> 0 then Air
              else LiquidBlock (WithDepth b (LiquidDepth b - 2 * SpreadDecay b) False))]"
  using assms by (simp add: tickLiquid_def issued_def traceOf_def PlaceBlock_def)

text \<open>The theorem at a water of depth 3 in the open: it has no depth left to lose.\<close>

theorem tickLiquid_decay_witness:
  "\<not> source (water 3 False)
   \<and> \<not> sourceAround (water 3 False) origin
         (setBlock (everywhere Air) origin (LiquidBlock (water 3 False)))
   \<and> tickLiquid noHarden (water 3 False) origin
         (setBlock (everywhere Air) origin (LiquidBlock (water 3 False)))
     = Some (Inr (PlaceBlock (setBlock (everywhere Air) origin (LiquidBlock (water 3 False)))
                   origin Air))"
proof -
  have 1: "\<not> source (water 3 False)"
    by (simp add: source_def water_def)
  have 2: "\<not> sourceAround (water 3 False) origin
              (setBlock (everywhere Air) origin (LiquidBlock (water 3 False)))"
    by (simp add: sourceAround_def example_defs pos_defs Block_def)
  from tickLiquid_decay [OF 1 2, of noHarden] 1 2 show ?thesis
    by (simp add: water_def)
qed

text \<open>
  The scenario of the specification fails: a water of depth 3 (decay 1) with nothing to
  sustain it is not taken to depth 1, it is replaced with air by the first tick.
\<close>

theorem tickLiquid_depth3_removed:
  "map_option traceOf (tickLiquid noHarden (water 3 False) origin
      (setBlock (everywhere Air) origin (LiquidBlock (water 3 False))))
     = Some [Placed origin Air]"
  by (simp add: tickLiquid_def source_def sourceAround_def example_defs pos_defs
      Block_def PlaceBlock_def traceOf_def)

subsection \<open>The sustain check\<close>

lemma liquid_case_ex:
  "(case blk of LiquidBlock side \<Rightarrow> F side | _ \<Rightarrow> False)
     \<longleftrightarrow> (\<exists>side. blk = LiquidBlock side \<and> F side)"
  by (cases blk) simp_all

lemma if_False_else: "(if c then False else X) \<longleftrightarrow> \<not> c \<and> X"
  by simp

lemma horizontal_set:
  "set (horizontal (x, y, z)) = {(x + 1, y, z), (x - 1, y, z), (x, y, z + 1), (x, y, z - 1)}"
  by (simp add: horizontal_def pos_defs)

lemma sourceAround_below:
  "sourceAround b pos (setBlock w (Add pos (0, - 1, 0)) blk) = sourceAround b pos w"
  by (cases pos) (simp add: sourceAround_def setBlock_def Block_def pos_defs)

text \<open>
  C5, as the code has it. The check \<open>source b \<or> sourceAround b pos w\<close> holds if and only
  if the liquid is a source, or any liquid of its type lies directly above it (whatever
  its depth), or a liquid of its type that is a source or strictly deeper lies beside it.
  The block below plays no part.
\<close>

theorem sourceAround_iff:
  "((source b \<or> sourceAround b pos w) \<longleftrightarrow>
      source b
      \<or> (\<exists>side. Block w (Add pos (0, 1, 0)) = LiquidBlock side \<and> LiquidType side = LiquidType b)
      \<or> (\<exists>neighbour side. neighbour \<in> set (horizontal pos)
            \<and> Block w neighbour = LiquidBlock side \<and> LiquidType side = LiquidType b
            \<and> (source side \<or> LiquidDepth side > LiquidDepth b)))
   \<and> sourceAround b pos (setBlock w (Add pos (0, - 1, 0)) blk) = sourceAround b pos w"
proof (cases pos)
  case (fields x y z)
  define S where "S n \<longleftrightarrow> (\<exists>side. Block w n = LiquidBlock side \<and> LiquidType side = LiquidType b
           \<and> (source side \<or> LiquidDepth side > LiquidDepth b))" for n
  define A where "A \<longleftrightarrow> (\<exists>side. Block w (x, y + 1, z) = LiquidBlock side \<and> LiquidType side = LiquidType b)"
  have code: "sourceAround b (x, y, z) w \<longleftrightarrow>
      S (x + 1, y, z) \<or> S (x - 1, y, z) \<or> A \<or> S (x, y, z + 1) \<or> S (x, y, z - 1)"
    unfolding sourceAround_def Neighbours_def S_def A_def
    by (simp add: posX_def posY_def posZ_def liquid_case_ex if_False_else)
  have 1: "(\<exists>side. Block w (Add pos (0, 1, 0)) = LiquidBlock side \<and> LiquidType side = LiquidType b) \<longleftrightarrow> A"
    by (simp add: A_def fields pos_defs)
  have 2: "(\<exists>neighbour side. neighbour \<in> set (horizontal pos)
           \<and> Block w neighbour = LiquidBlock side \<and> LiquidType side = LiquidType b
           \<and> (source side \<or> LiquidDepth side > LiquidDepth b))
       \<longleftrightarrow> S (x + 1, y, z) \<or> S (x - 1, y, z) \<or> S (x, y, z + 1) \<or> S (x, y, z - 1)"
  proof -
    have "(\<exists>neighbour side. neighbour \<in> set (horizontal pos)
           \<and> Block w neighbour = LiquidBlock side \<and> LiquidType side = LiquidType b
           \<and> (source side \<or> LiquidDepth side > LiquidDepth b))
       \<longleftrightarrow> (\<exists>neighbour \<in> set (horizontal pos). S neighbour)"
      unfolding S_def by blast
    also have "\<dots> \<longleftrightarrow> S (x + 1, y, z) \<or> S (x - 1, y, z) \<or> S (x, y, z + 1) \<or> S (x, y, z - 1)"
      by (simp add: fields horizontal_set)
    finally show ?thesis .
  qed
  have 3: "sourceAround b pos w \<longleftrightarrow>
      S (x + 1, y, z) \<or> S (x - 1, y, z) \<or> A \<or> S (x, y, z + 1) \<or> S (x, y, z - 1)"
    using code by (simp add: fields)
  show ?thesis
    unfolding 1 2 sourceAround_below unfolding 3 by blast
qed

text \<open>
  The check as the specification words it fails on a water of depth 5 under a water of
  depth 2: the code holds it sustained, though the water above is neither a source nor
  deeper.
\<close>

theorem sustainedSpec_differs:
  "(source (water 5 False)
      \<or> sourceAround (water 5 False) origin
           (setBlock (setBlock (everywhere Air) origin (LiquidBlock (water 5 False)))
              (0, 1, 0) (LiquidBlock (water 2 False))))
   \<and> \<not> sustainedSpec (water 5 False) origin
           (setBlock (setBlock (everywhere Air) origin (LiquidBlock (water 5 False)))
              (0, 1, 0) (LiquidBlock (water 2 False)))"
  by (simp add: sourceAround_def sustainedSpec_def horizontal_def source_def
      example_defs pos_defs Block_def)

subsection \<open>The search returns\<close>


lemma reach_mono: "j \<le> k \<Longrightarrow> reach j \<le> reach k"
  by (rule lift_Suc_mono_le) simp_all

lemma reach_pos: "0 < reach k"
  by (cases k) simp_all

lemma reach_step: "m < k \<Longrightarrow> 4 * reach (k - Suc m) < reach (k - m)"
proof -
  assume "m < k"
  then have "k - m = Suc (k - Suc m)" by simp
  then show ?thesis by simp
qed

lemma weight_mono:
  "sp' \<le> sp \<Longrightarrow> sum_list (map (\<lambda>node. reach (sp' - Len node)) ns)
     \<le> sum_list (map (\<lambda>node. reach (sp - Len node)) ns)"
  by (induction ns) (auto intro!: add_mono reach_mono)

text \<open>What one \<^verbatim>\<open>if spreadNeighbour(...)\<close> statement does to the queue and the paths.\<close>

lemma spreadNeighbour_cases:
  "spreadNeighbour b src w node q = (found, q') \<Longrightarrow>
     (q' = q \<and> (found \<longrightarrow> Len node \<le> shortestPath q))
     \<or> (\<not> found \<and> q' = PushBack q node \<and> Len node \<le> shortestPath q)"
  by (auto simp add: spreadNeighbour_def split: if_splits)

lemma spreadInto_cases:
  assumes "spreadInto b pos w neigh (q, ps) = (q', ps')"
  shows "(q' = q \<and> ps' = ps)
     \<or> (q' = q\<lparr>shortestPath := Len neigh\<rparr> \<and> ps' = ps @ [Path neigh pos] \<and> Len neigh \<le> shortestPath q)
     \<or> (q' = PushBack q neigh \<and> ps' = ps \<and> Len neigh \<le> shortestPath q)"
proof -
  obtain found q1 where s: "spreadNeighbour b pos w neigh q = (found, q1)"
    by (cases "spreadNeighbour b pos w neigh q")
  from spreadNeighbour_cases [OF s] s assms show ?thesis
    by (cases found) (auto simp add: spreadInto_def)
qed

lemma spreadInto_weight:
  assumes "spreadInto b pos w neigh (q, ps) = (q', ps')"
    and "i q \<le> length (nodes q)" and "shortestPath q \<le> sp"
  shows "i q' = i q \<and> i q' \<le> length (nodes q') \<and> shortestPath q' \<le> sp
     \<and> searchWeight q' \<le> searchWeight q + (if Len neigh \<le> sp then reach (sp - Len neigh) else 0)"
proof -
  from spreadInto_cases [OF assms(1)] show ?thesis
  proof (elim disjE conjE)
    assume "q' = q" 
    with assms show ?thesis by simp
  next
    assume q': "q' = q\<lparr>shortestPath := Len neigh\<rparr>" and le: "Len neigh \<le> shortestPath q"
    have "searchWeight q' \<le> searchWeight q"
      using weight_mono [OF le] by (simp add: q' searchWeight_def remaining_def)
    with assms le show ?thesis by (simp add: q')
  next
    assume q': "q' = PushBack q neigh" and le: "Len neigh \<le> shortestPath q"
    have "searchWeight q' = searchWeight q + reach (shortestPath q - Len neigh)"
      using assms(2) by (simp add: q' searchWeight_def remaining_def PushBack_def)
    moreover have "reach (shortestPath q - Len neigh) \<le> reach (sp - Len neigh)"
      using assms(3) by (intro reach_mono) simp
    ultimately show ?thesis using assms le by (simp add: q' PushBack_def)
  qed
qed

lemma Len_neighbours:
  "neighbours node d = (na, nb, nc, nd) \<Longrightarrow>
     Len na = Suc (Len node) \<and> Len nb = Suc (Len node) \<and> Len nc = Suc (Len node) \<and> Len nd = Suc (Len node)"
  by (auto simp add: neighbours_def)

lemma searchStep_weight:
  assumes "queueLen (fst s) \<noteq> 0"
  shows "searchWeight (fst (searchStep b pos w decay s)) < searchWeight (fst s)"
proof -
  obtain q ps where s: "s = (q, ps)" by (cases s)
  from assms s have lt: "i q < length (nodes q)" by (simp add: queueLen_def)
  define node where "node = nodes q ! i q"
  define q0 where "q0 = q\<lparr>i := Suc (i q)\<rparr>"
  define sp where "sp = shortestPath q"
  define L where "L = Suc (Len node)"
  define c where "c = (if L \<le> sp then reach (sp - L) else 0)"
  obtain na nb nc nd where n: "neighbours node (decay * 2) = (na, nb, nc, nd)"
    by (cases "neighbours node (decay * 2)")
  from Len_neighbours [OF n, folded L_def]
  have len: "Len na = L" "Len nb = L" "Len nc = L" "Len nd = L" by simp_all
  have rem: "remaining q = node # remaining q0"
    using lt by (simp add: remaining_def q0_def node_def Cons_nth_drop_Suc)
  have w0: "searchWeight q = reach (sp - Len node) + searchWeight q0"
    by (simp add: searchWeight_def rem sp_def) (simp add: q0_def remaining_def)
  have q0: "i q0 \<le> length (nodes q0)" "shortestPath q0 \<le> sp"
    using lt by (simp_all add: q0_def sp_def)
  obtain q1 p1 where 1: "spreadInto b pos w na (q0, ps) = (q1, p1)"
    by (cases "spreadInto b pos w na (q0, ps)")
  obtain q2 p2 where 2: "spreadInto b pos w nb (q1, p1) = (q2, p2)"
    by (cases "spreadInto b pos w nb (q1, p1)")
  obtain q3 p3 where 3: "spreadInto b pos w nc (q2, p2) = (q3, p3)"
    by (cases "spreadInto b pos w nc (q2, p2)")
  obtain q4 p4 where 4: "spreadInto b pos w nd (q3, p3) = (q4, p4)"
    by (cases "spreadInto b pos w nd (q3, p3)")
  have step: "searchStep b pos w decay s = (q4, p4)"
    by (simp add: searchStep_def s Front_def node_def [symmetric] q0_def [symmetric] n 1 2 3 4)
  from spreadInto_weight [OF 1 q0, unfolded len]
  have a1: "i q1 \<le> length (nodes q1)" "shortestPath q1 \<le> sp" "searchWeight q1 \<le> searchWeight q0 + c"
    by (simp_all add: c_def)
  from spreadInto_weight [OF 2 a1(1,2), unfolded len]
  have a2: "i q2 \<le> length (nodes q2)" "shortestPath q2 \<le> sp" "searchWeight q2 \<le> searchWeight q1 + c"
    by (simp_all add: c_def)
  from spreadInto_weight [OF 3 a2(1,2), unfolded len]
  have a3: "i q3 \<le> length (nodes q3)" "shortestPath q3 \<le> sp" "searchWeight q3 \<le> searchWeight q2 + c"
    by (simp_all add: c_def)
  from spreadInto_weight [OF 4 a3(1,2), unfolded len]
  have a4: "searchWeight q4 \<le> searchWeight q3 + c"
    by (simp_all add: c_def)
  have "4 * c < reach (sp - Len node)"
  proof (cases "L \<le> sp")
    case True
    then have "Len node < sp" by (simp add: L_def)
    from reach_step [OF this] True show ?thesis by (simp add: c_def L_def)
  next
    case False
    then show ?thesis by (simp add: c_def reach_pos)
  qed
  with a1(3) a2(3) a3(3) a4 w0 show ?thesis
    by (simp add: step [unfolded s] s)
qed

lemma searchLoop_total: "\<exists>paths. searchLoop b pos w decay s = Some paths"
proof (induction "searchWeight (fst s)" arbitrary: s rule: less_induct)
  case less
  show ?case
  proof (cases "queueLen (fst s) = 0")
    case True
    then show ?thesis by (subst searchLoop.simps) simp
  next
    case False
    from less [OF searchStep_weight [OF False]]
    obtain paths where "searchLoop b pos w decay (searchStep b pos w decay s) = Some paths"
      by blast
    with False show ?thesis by (subst searchLoop.simps) simp
  qed
qed


lemma calculateLiquidPaths_total: "\<exists>paths. calculateLiquidPaths b pos w = Some paths"
  unfolding calculateLiquidPaths_def by (rule searchLoop_total)

text \<open>
  C8. The search for the paths returns, for every liquid, position and world, hence for
  every liquid of decay 1 or more: the loop empties its queue. The measure that decreases
  at every iteration is \<open>searchWeight\<close>: a neighbour is only enqueued when its path is
  not longer than the bound, which starts at 127 and never grows, and a neighbour whose
  depth has reached \<open>depth + 3 \<le> 0\<close> is not enqueued at all.
\<close>

theorem calculateLiquidPaths_terminates:
  "\<exists>paths. calculateLiquidPaths b pos w = Some paths"
  unfolding calculateLiquidPaths_def by (rule searchLoop_total)

subsection \<open>All paths returned have the same length\<close>

lemma searchLoop_invariant:
  assumes "I s"
    and step: "\<And>s. I s \<Longrightarrow> queueLen (fst s) \<noteq> 0 \<Longrightarrow> I (searchStep b pos w decay s)"
    and "searchLoop b pos w decay s = Some paths"
  shows "\<exists>q. I (q, paths)"
  using assms(1,3)
proof (induction "searchWeight (fst s)" arbitrary: s rule: less_induct)
  case less
  show ?case
  proof (cases "queueLen (fst s) = 0")
    case True
    with less.prems(2) have "snd s = paths"
      by (subst (asm) searchLoop.simps) simp
    with less.prems(1) show ?thesis by (cases s) auto
  next
    case False
    with less.prems(2) have "searchLoop b pos w decay (searchStep b pos w decay s) = Some paths"
      by (subst (asm) searchLoop.simps) simp
    from less.hyps [OF searchStep_weight [OF False] step [OF less.prems(1) False] this]
    show ?thesis .
  qed
qed

lemma searchStep_rule:
  assumes "queueLen q \<noteq> 0"
    and "M (q\<lparr>i := Suc (i q)\<rparr>, ps)"
    and "\<And>neigh s. M s \<Longrightarrow> neigh \<in> set (neighbourList (nodes q ! i q) (decay * 2))
           \<Longrightarrow> M (spreadInto b pos w neigh s)"
  shows "M (searchStep b pos w decay (q, ps))"
proof -
  obtain na nb nc nd where n: "neighbours (nodes q ! i q) (decay * 2) = (na, nb, nc, nd)"
    by (cases "neighbours (nodes q ! i q) (decay * 2)")
  then have l: "neighbourList (nodes q ! i q) (decay * 2) = [na, nb, nc, nd]"
    by (simp add: neighbourList_def)
  have "M (spreadInto b pos w na (q\<lparr>i := Suc (i q)\<rparr>, ps))"
    using assms(2) by (rule assms(3)) (simp add: l)
  then have "M (spreadInto b pos w nb (spreadInto b pos w na (q\<lparr>i := Suc (i q)\<rparr>, ps)))"
    by (rule assms(3)) (simp add: l)
  then have "M (spreadInto b pos w nc (spreadInto b pos w nb (spreadInto b pos w na (q\<lparr>i := Suc (i q)\<rparr>, ps))))"
    by (rule assms(3)) (simp add: l)
  then have "M (spreadInto b pos w nd (spreadInto b pos w nc (spreadInto b pos w nb (spreadInto b pos w na (q\<lparr>i := Suc (i q)\<rparr>, ps)))))"
    by (rule assms(3)) (simp add: l)
  then show ?thesis
    by (simp add: searchStep_def Front_def n)
qed

lemma length_Path: "length (Path node src) = Len node"
  by (induction node src rule: Path.induct) simp_all

lemma Len_neighbourList:
  "neigh \<in> set (neighbourList node d) \<Longrightarrow> Len neigh = Suc (Len node)"
  by (auto simp add: neighbourList_def neighbours_def)

lemma level_spreadInto:
  assumes "level L s" and "Len neigh = Suc L"
  shows "level L (spreadInto b pos w neigh s)"
proof -
  obtain q ps where s: "s = (q, ps)" by (cases s)
  obtain q' ps' where s': "spreadInto b pos w neigh (q, ps) = (q', ps')"
    by (cases "spreadInto b pos w neigh (q, ps)")
  from spreadInto_cases [OF s'] show ?thesis
  proof (elim disjE conjE)
    assume "q' = q" "ps' = ps"
    with assms s s' show ?thesis by simp
  next
    assume "q' = q\<lparr>shortestPath := Len neigh\<rparr>" "ps' = ps @ [Path neigh pos]"
      "Len neigh \<le> shortestPath q"
    with assms s s' show ?thesis
      by (auto simp add: level_def remaining_def length_Path)
  next
    assume "q' = PushBack q neigh" "ps' = ps" "Len neigh \<le> shortestPath q"
    with assms s s' show ?thesis
      by (auto simp add: level_def remaining_def PushBack_def sorted_append)
  qed
qed

lemma levelled_searchStep:
  assumes "levelled s" and "queueLen (fst s) \<noteq> 0"
  shows "levelled (searchStep b pos w decay s)"
proof -
  obtain q ps where s: "s = (q, ps)" by (cases s)
  from assms s have lt: "i q < length (nodes q)" by (simp add: queueLen_def)
  define node where "node = nodes q ! i q"
  have rem: "remaining q = node # remaining (q\<lparr>i := Suc (i q)\<rparr>)"
    using lt by (simp add: remaining_def node_def Cons_nth_drop_Suc)
  have "level (Len node) (searchStep b pos w decay (q, ps))"
  proof (rule searchStep_rule)
    show "queueLen q \<noteq> 0" using assms s by simp
    show "level (Len node) (q\<lparr>i := Suc (i q)\<rparr>, ps)"
      using assms(1) lt unfolding s levelled_def level_def
      by (auto simp add: rem) 
  next
    fix neigh s
    assume "level (Len node) s" "neigh \<in> set (neighbourList (nodes q ! i q) (decay * 2))"
    then show "level (Len node) (spreadInto b pos w neigh s)"
      by (intro level_spreadInto) (simp_all add: Len_neighbourList node_def)
  qed
  then have lv: "level (Len node) (searchStep b pos w decay s)"
    by (simp add: s)
  define s' where "s' = searchStep b pos w decay s"
  define r where "r = remaining (fst s')"
  from lv have 1: "sorted (map Len r)"
    and 2: "\<And>n. n \<in> set r \<Longrightarrow> Len node \<le> Len n \<and> Len n \<le> Suc (Len node)"
    and 3: "snd s' \<noteq> [] \<Longrightarrow> (\<forall>p \<in> set (snd s'). length p = shortestPath (fst s'))
          \<and> shortestPath (fst s') \<le> Suc (Len node)"
    by (simp_all add: level_def s'_def r_def)
  have "\<forall>n \<in> set r. Len n \<le> Suc (Len (hd r))"
  proof
    fix n assume n: "n \<in> set r"
    then have "hd r \<in> set r" by (cases r) auto
    with 2 [of n] 2 [of "hd r"] n show "Len n \<le> Suc (Len (hd r))" by simp
  qed
  moreover have "snd s' \<noteq> [] \<longrightarrow> (\<forall>n \<in> set r. shortestPath (fst s') \<le> Suc (Len n))"
    using 2 3 by fastforce
  ultimately show ?thesis
    using 1 3 by (simp add: levelled_def s'_def [symmetric] r_def [symmetric])
qed

lemma levelled_initial: "levelled (PushBack newQueue root, [])"
  by (simp add: levelled_def remaining_def PushBack_def newQueue_def)

lemma searchLoop_same_length:
  assumes "searchLoop b pos w decay (PushBack newQueue root, []) = Some paths"
  shows "\<exists>n. \<forall>p \<in> set paths. length p = n"
proof -
  from searchLoop_invariant [where I = levelled, OF levelled_initial levelled_searchStep assms]
  obtain q where "levelled (q, paths)" by blast
  then show ?thesis by (cases paths) (auto simp add: levelled_def)
qed


text \<open>
  C3. Every path the search returns is at most as long as the shortest path it returns:
  all paths returned have the same length.
\<close>

theorem calculateLiquidPaths_shortest:
  assumes "calculateLiquidPaths b pos w = Some paths" and "p \<in> set paths"
  shows "length p \<le> Min (length ` set paths)"
proof -
  from searchLoop_same_length [OF assms(1) [unfolded calculateLiquidPaths_def]]
  obtain n where n: "\<forall>p \<in> set paths. length p = n" by blast
  with assms(2) have "length ` set paths = {n}" by auto
  with n assms(2) show ?thesis by simp
qed

lemma ledge_paths:
  "calculateLiquidPaths (water 8 False) origin ledge = Some [[(- 1, 0, 0)], [(1, 0, 0)]]"
  by code_simp

text \<open>
  The theorem on the ledge: two paths of one step are returned; the path of two steps
  to the south is not.
\<close>

theorem calculateLiquidPaths_shortest_witness:
  "calculateLiquidPaths (water 8 False) origin ledge = Some [[(- 1, 0, 0)], [(1, 0, 0)]]
   \<and> [(1, 0, 0)] \<in> set [[(- 1, 0, 0)], [(1, 0, 0)]]
   \<and> length [(1 :: int, 0 :: int, 0 :: int)]
        \<le> Min (length ` set [[(- 1, 0, 0)], [(1 :: int, 0 :: int, 0 :: int)]])"
proof -
  have 1: "[(1, 0, 0)] \<in> set [[(- 1, 0, 0)], [(1 :: int, 0 :: int, 0 :: int)]]"
    by simp
  from calculateLiquidPaths_shortest [OF ledge_paths 1] ledge_paths 1 show ?thesis
    by simp
qed

subsection \<open>Every path starts beside the position\<close>

lemma headed_neighbour:
  assumes "rooted pos node" and "neigh \<in> set (neighbourList node d)"
  shows "headed pos (Path neigh pos)"
proof -
  obtain x z dp prev where node: "node = LiquidNode x z dp prev" by (cases node)
  obtain px py pz where pos: "pos = (px, py, pz)" by (cases pos)
  from assms(1) show ?thesis
    unfolding rooted_def
  proof
    assume "previous node = None \<and> node_x node = posX pos \<and> node_z node = posZ pos"
    with assms(2) show ?thesis
      by (auto simp add: node pos neighbourList_def neighbours_def headed_def horizontal_set
          posX_def posY_def posZ_def)
  next
    assume "headed pos (Path node pos)"
    then obtain first rest where "Path node pos = first # rest" "first \<in> set (horizontal pos)"
      by (auto simp add: headed_def) 
    moreover from assms(2) obtain l where "Path neigh pos = Path node pos @ [l]"
      by (auto simp add: neighbourList_def neighbours_def)
    ultimately have "Path neigh pos = first # (rest @ [l])" by simp
    with \<open>first \<in> set (horizontal pos)\<close> show ?thesis
      unfolding headed_def by blast
  qed
qed

lemma allRooted_spreadInto:
  assumes "allRooted pos s" and "headed pos (Path neigh pos)"
  shows "allRooted pos (spreadInto b pos w neigh s)"
proof -
  obtain q ps where s: "s = (q, ps)" by (cases s)
  obtain q' ps' where s': "spreadInto b pos w neigh (q, ps) = (q', ps')"
    by (cases "spreadInto b pos w neigh (q, ps)")
  from spreadInto_cases [OF s'] assms show ?thesis
    unfolding s s' by (auto simp add: allRooted_def rooted_def PushBack_def)
qed

lemma allRooted_searchStep:
  assumes "allRooted pos s" and "queueLen (fst s) \<noteq> 0"
  shows "allRooted pos (searchStep b pos w decay s)"
proof -
  obtain q ps where s: "s = (q, ps)" by (cases s)
  from assms s have lt: "i q < length (nodes q)" by (simp add: queueLen_def)
  with assms(1) s have node: "rooted pos (nodes q ! i q)"
    by (simp add: allRooted_def)
  have "allRooted pos (searchStep b pos w decay (q, ps))"
  proof (rule searchStep_rule)
    show "queueLen q \<noteq> 0" using assms s by simp
    show "allRooted pos (q\<lparr>i := Suc (i q)\<rparr>, ps)"
      using assms(1) by (simp add: s allRooted_def)
  next
    fix neigh s
    assume "allRooted pos s" "neigh \<in> set (neighbourList (nodes q ! i q) (decay * 2))"
    then show "allRooted pos (spreadInto b pos w neigh s)"
      by (intro allRooted_spreadInto headed_neighbour [OF node])
  qed
  then show ?thesis by (simp add: s)
qed

lemma calculateLiquidPaths_headed:
  assumes "calculateLiquidPaths b pos w = Some paths" and "p \<in> set paths"
  shows "headed pos p"
proof -
  have "allRooted pos
     (PushBack newQueue (LiquidNode (posX pos) (posZ pos) (word_of_int (LiquidDepth b)) None), [])"
    by (simp add: allRooted_def rooted_def PushBack_def newQueue_def)
  from searchLoop_invariant [where I = "allRooted pos", OF this allRooted_searchStep
      assms(1) [unfolded calculateLiquidPaths_def]]
  obtain q where "allRooted pos (q, paths)" by blast
  with assms(2) show ?thesis by (simp add: allRooted_def)
qed

subsection \<open>The events of a flow and of a tick\<close>

lemma lateralFlows_append [simp]: "lateralFlows (xs @ ys) = lateralFlows xs @ lateralFlows ys"
  by (simp add: lateralFlows_def)

lemma lateralFlows_Nil [simp]: "lateralFlows [] = []"
  by (simp add: lateralFlows_def)

lemma flowInto_trace:
  "\<exists>new. flowTrace (flowInto H b src pos w falling) = trace w @ new
     \<and> (\<forall>e \<in> set new. flowEvent b src pos falling e)
     \<and> lateralFlows new = (if falling then [] else [Flowed b src pos False])"
  by (auto simp add: flowInto_def Let_def flowTrace_def traceOf_def flowEvent_def lateralFlows_def
      PlaceBlock_def BreakBlock_def Harden_def Block_def
      split: block.splits option.splits)

lemma flowAll_trace:
  "\<exists>new. traceOf (flowAll H b src ts w) = trace w @ new
     \<and> (\<forall>e \<in> set new. \<exists>t \<in> set ts. flowEvent b src t False e)
     \<and> (\<not> isl (flowAll H b src ts w)
          \<longrightarrow> lateralFlows new = map (\<lambda>t. Flowed b src t False) ts)"
proof (induction ts arbitrary: w)
  case Nil
  show ?case by (simp add: traceOf_def)
next
  case (Cons t ts)
  from flowInto_trace [of H b src t w False]
  obtain new where new: "flowTrace (flowInto H b src t w False) = trace w @ new"
    "\<forall>e \<in> set new. flowEvent b src t False e" "lateralFlows new = [Flowed b src t False]"
    by auto
  show ?case
  proof (cases "flowInto H b src t w False")
    case (Inl p)
    with new show ?thesis
      by (auto simp add: flowTrace_def intro!: exI [of _ new])
  next
    case (Inr r)
    obtain ok w' where r: "r = (ok, w')" by (cases r)
    from new Inr r have w': "trace w' = trace w @ new"
      by (simp add: flowTrace_def traceOf_def)
    from Cons.IH [of w'] obtain more where more:
      "traceOf (flowAll H b src ts w') = trace w' @ more"
      "\<forall>e \<in> set more. \<exists>t \<in> set ts. flowEvent b src t False e"
      "\<not> isl (flowAll H b src ts w')
          \<longrightarrow> lateralFlows more = map (\<lambda>t. Flowed b src t False) ts"
      by blast
    show ?thesis
      apply (rule exI [of _ "new @ more"])
      using new more w' Inr r
      apply auto
      done
  qed
qed

lemma flowInto_panic: "flowInto H b src pos w falling = Inl p \<Longrightarrow> \<exists>w'. p = DropsWithoutItem w'"
  by (auto simp add: flowInto_def Let_def split: block.splits option.splits if_splits)

lemma flowAll_panic: "flowAll H b src ts w = Inl p \<Longrightarrow> \<exists>w'. p = DropsWithoutItem w'"
  by (induction ts arbitrary: w) (auto split: sum.splits dest: flowInto_panic)

lemma spreadEach_flowAll:
  "spreadEach H b pos ns w = flowAll H b pos (filter (\<lambda>neighbour. posY neighbour = posY pos) ns) w"
  by (induction ns arbitrary: w) (auto split: sum.splits)

lemma spreadOutwards_flowAll: "spreadOutwards H b pos w = flowAll H b pos (horizontal pos) w"
  by (simp add: spreadOutwards_def spreadEach_flowAll horizontal_def)

lemma flowPaths_flowAll:
  assumes "\<forall>p \<in> set paths. p \<noteq> []"
  shows "flowPaths H b pos k paths w
     = flowAll H b pos (map hd (filter (\<lambda>p. length p \<le> k) paths)) w"
  using assms
proof (induction paths arbitrary: w)
  case Nil
  show ?case by simp
next
  case (Cons p paths)
  then obtain first rest where p: "p = first # rest" by (cases p) auto
  from Cons show ?case
    by (auto simp add: p split: sum.splits)
qed

lemma lateralTargets_horizontal:
  assumes "calculateLiquidPaths b pos w = Some paths"
  shows "set (lateralTargets paths pos) \<subseteq> set (horizontal pos)"
proof (cases "paths = []")
  case True
  then show ?thesis by (simp add: lateralTargets_def)
next
  case False
  have "hd p \<in> set (horizontal pos)" if "p \<in> set paths" for p
    using calculateLiquidPaths_headed [OF assms that] by (auto simp add: headed_def)
  with False show ?thesis by (auto simp add: lateralTargets_def)
qed

lemma spread_flowAll:
  assumes "calculateLiquidPaths b pos w = Some paths"
  shows "spread H b pos w canFlowBelow =
     (if LiquidDepth b \<le> SpreadDecay b then Some (Inr w)
      else if source b \<or> \<not> canFlowBelow
        then Some (flowAll H b pos (lateralTargets paths pos) w)
      else Some (Inr w))"
proof (cases paths)
  case Nil
  with assms show ?thesis
    by (simp add: spread_def lateralTargets_def spreadOutwards_flowAll)
next
  case (Cons shortest rest)
  from searchLoop_same_length [OF assms [unfolded calculateLiquidPaths_def]]
  obtain n where n: "\<forall>p \<in> set paths. length p = n" by blast
  then have len: "length shortest = n" by (simp add: Cons)
  from n Cons have "length ` set paths = {n}" by auto
  then have Min: "Min (length ` set paths) = n" by simp
  have nonempty: "\<forall>p \<in> set paths. p \<noteq> []"
    using calculateLiquidPaths_headed [OF assms] by (auto simp add: headed_def)
  have targets: "lateralTargets paths pos = map hd (filter (\<lambda>p. length p \<le> n) paths)"
    unfolding lateralTargets_def Min using Cons by simp
  have "flowPaths H b pos (length shortest) paths w = flowAll H b pos (lateralTargets paths pos) w"
    unfolding targets len by (rule flowPaths_flowAll [OF nonempty])
  moreover have "spread H b pos w canFlowBelow =
     (if LiquidDepth b \<le> SpreadDecay b then Some (Inr w)
      else if source b \<or> \<not> canFlowBelow
        then Some (flowPaths H b pos (length shortest) paths w)
      else Some (Inr w))"
    unfolding spread_def assms by (simp add: Cons del: flowPaths.simps)
  ultimately show ?thesis by simp
qed

lemma fall_liquid:
  "fall H b pos w canFlowBelow = Inr (b', w')
     \<Longrightarrow> b' = (if LiquidFalling b \<and> \<not> canFlowBelow then WithDepth b 8 True else b)"
  by (auto simp add: fall_def split: if_splits sum.splits)

lemma fall_trace:
  "\<exists>new. traceOf (map_sum id snd (fall H b pos w canFlowBelow)) = trace w @ new
     \<and> (\<forall>e \<in> set new. flowEvent (WithDepth b 8 True) pos (Add pos (0, - 1, 0)) True e)
     \<and> lateralFlows new = []"
proof (cases "canFlowBelow")
  case False
  then show ?thesis by (simp add: fall_def traceOf_def)
next
  case True
  from flowInto_trace [of H "WithDepth b 8 True" pos "Add pos (0, - 1, 0)" w True]
  obtain new where "flowTrace (flowInto H (WithDepth b 8 True) pos (Add pos (0, - 1, 0)) w True)
       = trace w @ new"
    "\<forall>e \<in> set new. flowEvent (WithDepth b 8 True) pos (Add pos (0, - 1, 0)) True e"
    "lateralFlows new = []"
    by auto
  with True show ?thesis
    by (cases "flowInto H (WithDepth b 8 True) pos (Add pos (0, - 1, 0)) w True")
      (auto simp add: fall_def flowTrace_def traceOf_def)
qed

lemma spread_trace:
  assumes "spread H b pos w canFlowBelow = Some r"
  shows "\<exists>new paths. traceOf r = trace w @ new
     \<and> calculateLiquidPaths b pos w = Some paths
     \<and> (\<forall>e \<in> set new. SpreadDecay b < LiquidDepth b
            \<and> (\<exists>t \<in> set (horizontal pos). flowEvent b pos t False e))
     \<and> (lateralFlows new \<noteq> [] \<longrightarrow> source b \<or> \<not> canFlowBelow)
     \<and> (\<not> isl r \<longrightarrow> lateralFlows new =
          (if SpreadDecay b < LiquidDepth b \<and> (source b \<or> \<not> canFlowBelow)
           then map (\<lambda>t. Flowed b pos t False) (lateralTargets paths pos) else []))"
proof -
  obtain paths where paths: "calculateLiquidPaths b pos w = Some paths"
    using calculateLiquidPaths_total by blast
  note eq = spread_flowAll [OF paths, of H canFlowBelow]
  show ?thesis
  proof (cases "SpreadDecay b < LiquidDepth b \<and> (source b \<or> \<not> canFlowBelow)")
    case False
    with assms eq have "r = Inr w" by (auto split: if_splits)
    with False paths show ?thesis by (auto simp add: traceOf_def)
  next
    case True
    with assms eq have r: "r = flowAll H b pos (lateralTargets paths pos) w"
      by (auto split: if_splits)
    from flowAll_trace [of H b pos "lateralTargets paths pos" w]
    obtain new where new: "traceOf r = trace w @ new"
      "\<forall>e \<in> set new. \<exists>t \<in> set (lateralTargets paths pos). flowEvent b pos t False e"
      "\<not> isl r \<longrightarrow> lateralFlows new = map (\<lambda>t. Flowed b pos t False) (lateralTargets paths pos)"
      unfolding r by blast
    from new(2) lateralTargets_horizontal [OF paths]
    have "\<forall>e \<in> set new. \<exists>t \<in> set (horizontal pos). flowEvent b pos t False e"
      by blast
    with new(1,3) True paths show ?thesis
      by (intro exI [of _ new] exI [of _ paths]) simp
  qed
qed

lemma issued_append: "traceOf r = trace w @ new \<Longrightarrow> issued w r = new"
  by (simp add: issued_def)

lemma fall_panic: "fall H b pos w c = Inl p \<Longrightarrow> \<exists>w'. p = DropsWithoutItem w'"
  by (auto simp add: fall_def split: if_splits sum.splits dest: flowInto_panic)

lemma spread_panic:
  assumes "spread H b pos w c = Some (Inl p)"
  shows "\<exists>w'. p = DropsWithoutItem w'"
proof -
  obtain paths where paths: "calculateLiquidPaths b pos w = Some paths"
    using calculateLiquidPaths_total by blast
  from assms show ?thesis
    unfolding spread_flowAll [OF paths]
    by (auto split: if_splits dest: flowAll_panic)
qed

lemma tickLiquid_sustained:
  assumes "source b \<or> sourceAround b pos w"
  shows "tickLiquid H b pos w =
     (case fall H b pos w (canFlowInto b w (Add pos (0, - 1, 0)) False) of
        Inl p \<Rightarrow> Some (Inl p)
      | Inr (l, w') \<Rightarrow>
          spread H (if LiquidFalling b \<and> \<not> canFlowInto b w (Add pos (0, - 1, 0)) False
                    then WithDepth b 8 True else b)
            pos w' (canFlowInto b w (Add pos (0, - 1, 0)) False))"
proof -
  have ns: "(\<not> source b \<and> \<not> sourceAround b pos w) = False"
    using assms by blast
  show ?thesis
  proof (cases "fall H b pos w (canFlowInto b w (Add pos (0, - 1, 0)) False)")
    case (Inl p)
    then show ?thesis
      unfolding tickLiquid_def ns if_False Let_def by simp
  next
    case (Inr lw)
    obtain l w' where lw: "lw = (l, w')" by (cases lw)
    from fall_liquid [OF Inr [unfolded lw]] have "l = (if LiquidFalling b \<and> \<not> canFlowInto b w (Add pos (0, - 1, 0)) False
                    then WithDepth b 8 True else b)" .
    then show ?thesis
      unfolding tickLiquid_def ns if_False Let_def Inr lw by simp
  qed
qed

lemma tickLiquid_sustained_trace:
  assumes sus: "source b \<or> sourceAround b pos w"
    and r: "tickLiquid H b pos w = Some r"
    and c: "c = canFlowInto b w (Add pos (0, - 1, 0)) False"
    and b': "b' = (if LiquidFalling b \<and> \<not> c then WithDepth b 8 True else b)"
  shows "\<exists>fallen spreaded. issued w r = fallen @ spreaded
     \<and> (\<forall>e \<in> set fallen. flowEvent (WithDepth b 8 True) pos (Add pos (0, - 1, 0)) True e)
     \<and> lateralFlows fallen = []
     \<and> (\<forall>e \<in> set spreaded. SpreadDecay b' < LiquidDepth b'
            \<and> (\<exists>t \<in> set (horizontal pos). flowEvent b' pos t False e))
     \<and> (lateralFlows spreaded \<noteq> [] \<longrightarrow> source b \<or> \<not> c)
     \<and> (\<not> isl r \<longrightarrow> (\<exists>w1 paths. fall H b pos w c = Inr (b', w1)
            \<and> calculateLiquidPaths b' pos w1 = Some paths
            \<and> lateralFlows spreaded =
               (if SpreadDecay b' < LiquidDepth b' \<and> (source b \<or> \<not> c)
                then map (\<lambda>t. Flowed b' pos t False) (lateralTargets paths pos) else [])))"
proof -
  from fall_trace [of H b pos w c]
  obtain fallen where fallen: "traceOf (map_sum id snd (fall H b pos w c)) = trace w @ fallen"
    "\<forall>e \<in> set fallen. flowEvent (WithDepth b 8 True) pos (Add pos (0, - 1, 0)) True e"
    "lateralFlows fallen = []"
    by blast
  have src: "source b' \<or> \<not> c \<longleftrightarrow> source b \<or> \<not> c"
    by (auto simp add: b')
  show ?thesis
  proof (cases "fall H b pos w c")
    case (Inl p)
    with r sus have "r = Inl p"
      by (simp add: tickLiquid_sustained c [symmetric])
    with fallen(1) Inl have i: "issued w r = fallen @ []"
      by (simp add: issued_append)
    from \<open>r = Inl p\<close> have "isl r" by simp
    with i fallen(2,3) show ?thesis
      by (intro exI [of _ fallen] exI [of _ "[]"]) simp
  next
    case (Inr lw)
    obtain l w1 where lw: "lw = (l, w1)" by (cases lw)
    from fall_liquid [OF Inr [unfolded lw]] b' have l: "l = b'" by simp
    from r sus Inr lw have s: "spread H b' pos w1 c = Some r"
      by (simp add: tickLiquid_sustained c [symmetric] b' [symmetric])
    from fallen Inr lw have w1: "trace w1 = trace w @ fallen"
      by (simp add: traceOf_def)
    from spread_trace [OF s] obtain new paths where new:
      "traceOf r = trace w1 @ new" "calculateLiquidPaths b' pos w1 = Some paths"
      "\<forall>e \<in> set new. SpreadDecay b' < LiquidDepth b'
            \<and> (\<exists>t \<in> set (horizontal pos). flowEvent b' pos t False e)"
      "lateralFlows new \<noteq> [] \<longrightarrow> source b' \<or> \<not> c"
      "\<not> isl r \<longrightarrow> lateralFlows new =
          (if SpreadDecay b' < LiquidDepth b' \<and> (source b' \<or> \<not> c)
           then map (\<lambda>t. Flowed b' pos t False) (lateralTargets paths pos) else [])"
      by blast
    have "issued w r = fallen @ new"
      using new(1) w1 by (simp add: issued_append)
    have 5: "lateralFlows new \<noteq> [] \<longrightarrow> source b \<or> \<not> c"
      using new(4) src by blast
    have 6: "\<not> isl r \<longrightarrow> (\<exists>w1 paths. fall H b pos w c = Inr (b', w1)
            \<and> calculateLiquidPaths b' pos w1 = Some paths
            \<and> lateralFlows new =
               (if SpreadDecay b' < LiquidDepth b' \<and> (source b \<or> \<not> c)
                then map (\<lambda>t. Flowed b' pos t False) (lateralTargets paths pos) else []))"
    proof
      assume "\<not> isl r"
      with new(5) have "lateralFlows new =
               (if SpreadDecay b' < LiquidDepth b' \<and> (source b \<or> \<not> c)
                then map (\<lambda>t. Flowed b' pos t False) (lateralTargets paths pos) else [])"
        unfolding src by blast
      moreover have "fall H b pos w c = Inr (b', w1)"
        using Inr lw l by simp
      ultimately show "\<exists>w1 paths. fall H b pos w c = Inr (b', w1)
            \<and> calculateLiquidPaths b' pos w1 = Some paths
            \<and> lateralFlows new =
               (if SpreadDecay b' < LiquidDepth b' \<and> (source b \<or> \<not> c)
                then map (\<lambda>t. Flowed b' pos t False) (lateralTargets paths pos) else [])"
        using new(2) by blast
    qed
    from \<open>issued w r = fallen @ new\<close> fallen(2,3) new(3) 5 6 show ?thesis
      by blast
  qed
qed

lemma tickLiquid_total: "\<exists>r. tickLiquid H b pos w = Some r"
proof (cases "\<not> source b \<and> \<not> sourceAround b pos w")
  case True
  then show ?thesis by (simp add: tickLiquid_def)
next
  case False
  then have sus: "source b \<or> sourceAround b pos w" by blast
  show ?thesis
  proof (cases "fall H b pos w (canFlowInto b w (Add pos (0, - 1, 0)) False)")
    case (Inl p)
    then show ?thesis by (simp add: tickLiquid_sustained [OF sus])
  next
    case (Inr lw)
    obtain l w' where lw: "lw = (l, w')" by (cases lw)
    obtain paths where "calculateLiquidPaths (if LiquidFalling b \<and> \<not> canFlowInto b w (Add pos (0, - 1, 0)) False
                    then WithDepth b 8 True else b) pos w' = Some paths"
      using calculateLiquidPaths_total by blast
    from spread_flowAll [OF this] Inr lw show ?thesis
      by (simp add: tickLiquid_sustained [OF sus])
  qed
qed

lemma flowEvent_target:
  "flowEvent b src t f e \<Longrightarrow> e = Placed p blk \<or> e = Broken p \<Longrightarrow> p = t"
  by (auto simp add: flowEvent_def)

lemma horizontal_not_self: "t \<in> set (horizontal pos) \<Longrightarrow> t \<noteq> pos"
  by (cases pos) (auto simp add: horizontal_set)

lemma below_not_self: "Add pos (0, - 1, 0) \<noteq> pos"
  by (cases pos) (simp add: pos_defs)


lemma flowEvent_depth:
  "flowEvent b src t f (Placed p (LiquidBlock l)) \<Longrightarrow>
     LiquidDepth l = (if f then LiquidDepth b else LiquidDepth b - SpreadDecay b)
     \<and> (f \<or> 0 < LiquidDepth b - SpreadDecay b)"
  by (auto simp add: flowEvent_def WithDepth_def)

lemma flowEvent_Flowed:
  "flowEvent b src t f (Flowed l s p g) \<Longrightarrow> l = b \<and> s = src \<and> p = t \<and> g = f"
  by (auto simp add: flowEvent_def)


lemma tickLiquid_the: "tickLiquid H b pos w = Some (the (tickLiquid H b pos w))"
  using tickLiquid_total [of H b pos w] by auto

lemma ledge_issued:
  "issued ledge (the (tickLiquid noHarden (water 8 False) origin ledge))
     = [Flowed (water 8 False) origin (- 1, 0, 0) False,
        Placed (- 1, 0, 0) (LiquidBlock (water 7 False)),
        Flowed (water 8 False) origin (1, 0, 0) False,
        Placed (1, 0, 0) (LiquidBlock (water 7 False))]"
  by code_simp

lemma ledge_returns: "\<not> isl (the (tickLiquid noHarden (water 8 False) origin ledge))"
  by code_simp

lemma shaft_issued:
  "issued shaft (the (tickLiquid noHarden (water 1 True) origin shaft))
     = [Flowed (water 8 True) origin (1, 0, 0) False,
        Flowed (water 8 True) origin (- 1, 0, 0) False,
        Placed (- 1, 0, 0) (LiquidBlock (water 7 False)),
        Flowed (water 8 True) origin (0, 0, 1) False,
        Flowed (water 8 True) origin (0, 0, - 1) False]"
  by code_simp

subsection \<open>What a tick places and where\<close>

text \<open>
  C10. A tick of a sustained liquid issues no \<^verbatim>\<open>PlaceBlock\<close> and no \<^verbatim>\<open>BreakBlock\<close>
  at the position ticked: each one is at the position below or at one of the four
  neighbours of the same height. (What the \<^verbatim>\<open>Harden\<close> of a liquid met does is not
  among the events issued.)
\<close>

theorem tickLiquid_frame:
  assumes "source b \<or> sourceAround b pos w"
    and "tickLiquid H b pos w = Some r"
    and "e \<in> set (issued w r)"
    and "e = Placed p blk \<or> e = Broken p"
  shows "p \<noteq> pos \<and> (p = Add pos (0, - 1, 0) \<or> p \<in> set (horizontal pos))"
proof -
  from tickLiquid_sustained_trace [OF assms(1,2) refl refl]
  obtain fallen spreaded where t: "issued w r = fallen @ spreaded"
    "\<forall>e \<in> set fallen. flowEvent (WithDepth b 8 True) pos (Add pos (0, - 1, 0)) True e"
    "\<forall>e \<in> set spreaded. \<exists>t \<in> set (horizontal pos).
        flowEvent (if LiquidFalling b \<and> \<not> canFlowInto b w (Add pos (0, - 1, 0)) False
                   then WithDepth b 8 True else b) pos t False e"
    by blast
  from assms(3) t(1) consider "e \<in> set fallen" | "e \<in> set spreaded" by auto
  then have "p = Add pos (0, - 1, 0) \<or> p \<in> set (horizontal pos)"
  proof cases
    case 1
    with t(2) assms(4) show ?thesis by (blast dest: flowEvent_target)
  next
    case 2
    with t(3) assms(4) show ?thesis by (blast dest: flowEvent_target)
  qed
  then show ?thesis
    using horizontal_not_self [of p pos] below_not_self [of pos] by auto
qed

text \<open>
  The theorem on the ledge: the water placed to the west.
\<close>

theorem tickLiquid_frame_witness:
  "(source (water 8 False) \<or> sourceAround (water 8 False) origin ledge)
   \<and> Placed (- 1, 0, 0) (LiquidBlock (water 7 False))
        \<in> set (issued ledge (the (tickLiquid noHarden (water 8 False) origin ledge)))
   \<and> (- 1, 0, 0) \<noteq> origin
   \<and> ((- 1, 0, 0) = Add origin (0, - 1, 0) \<or> (- 1, 0, 0) \<in> set (horizontal origin))"
proof -
  have 1: "source (water 8 False) \<or> sourceAround (water 8 False) origin ledge"
    by (simp add: source_def water_def)
  have 2: "Placed (- 1, 0, 0) (LiquidBlock (water 7 False))
        \<in> set (issued ledge (the (tickLiquid noHarden (water 8 False) origin ledge)))"
    by (simp add: ledge_issued)
  from tickLiquid_frame [OF 1 tickLiquid_the 2 disjI1 [OF refl]] 1 2 show ?thesis
    by simp
qed

text \<open>
  C7, as the code has it. For a liquid of depth 1 to 8 and decay 1 or more, every liquid
  a tick places has a depth from 1 to 8, provided the liquid is sustained or its decay
  is 2 at most: the flows place depth 8 (below) or \<open>depth - decay\<close>, and only when that
  is positive; the decay branch places \<open>depth - 2 * decay\<close> whenever \<open>depth > 4\<close>.
\<close>

theorem tickLiquid_depths:
  assumes "1 \<le> LiquidDepth b" and "LiquidDepth b \<le> 8" and "1 \<le> SpreadDecay b"
    and "SpreadDecay b \<le> 2 \<or> source b \<or> sourceAround b pos w"
    and "tickLiquid H b pos w = Some r"
    and "Placed p (LiquidBlock l) \<in> set (issued w r)"
  shows "1 \<le> LiquidDepth l \<and> LiquidDepth l \<le> 8"
proof (cases "source b \<or> sourceAround b pos w")
  case True
  define b' where "b' = (if LiquidFalling b \<and> \<not> canFlowInto b w (Add pos (0, - 1, 0)) False
                   then WithDepth b 8 True else b)"
  from tickLiquid_sustained_trace [OF True assms(5) refl b'_def]
  obtain fallen spreaded where t: "issued w r = fallen @ spreaded"
    "\<forall>e \<in> set fallen. flowEvent (WithDepth b 8 True) pos (Add pos (0, - 1, 0)) True e"
    "\<forall>e \<in> set spreaded. \<exists>t \<in> set (horizontal pos). flowEvent b' pos t False e"
    by blast
  have b': "1 \<le> LiquidDepth b'" "LiquidDepth b' \<le> 8" "1 \<le> SpreadDecay b'"
    using assms(1-3) by (simp_all add: b'_def WithDepth_def)
  from assms(6) t(1) consider "Placed p (LiquidBlock l) \<in> set fallen"
    | "Placed p (LiquidBlock l) \<in> set spreaded" by auto
  then show ?thesis
  proof cases
    case 1
    with t(2) have "flowEvent (WithDepth b 8 True) pos (Add pos (0, - 1, 0)) True (Placed p (LiquidBlock l))"
      by blast
    from flowEvent_depth [OF this] show ?thesis by (simp add: WithDepth_def)
  next
    case 2
    with t(3) obtain t where "flowEvent b' pos t False (Placed p (LiquidBlock l))"
      by blast
    from flowEvent_depth [OF this] b' show ?thesis by simp
  qed
next
  case False
  with assms(4) have decay: "SpreadDecay b \<le> 2" by blast
  from False assms(5) have r: "r = Inr (PlaceBlock w pos
             (if LiquidDepth b - 4 \<le> 0 then Air
              else LiquidBlock (WithDepth b (LiquidDepth b - 2 * SpreadDecay b) False)))"
    by (auto simp add: tickLiquid_def)
  from assms(6) assms(1-3) decay show ?thesis
    unfolding r by (auto simp add: issued_def traceOf_def PlaceBlock_def WithDepth_def split: if_splits)
qed

text \<open>
  The theorem on the ledge: the water of depth 7 placed to the west.
\<close>

theorem tickLiquid_depths_witness:
  "1 \<le> LiquidDepth (water 8 False) \<and> LiquidDepth (water 8 False) \<le> 8
   \<and> 1 \<le> SpreadDecay (water 8 False)
   \<and> (SpreadDecay (water 8 False) \<le> 2 \<or> source (water 8 False)
        \<or> sourceAround (water 8 False) origin ledge)
   \<and> Placed (- 1, 0, 0) (LiquidBlock (water 7 False))
        \<in> set (issued ledge (the (tickLiquid noHarden (water 8 False) origin ledge)))
   \<and> 1 \<le> LiquidDepth (water 7 False) \<and> LiquidDepth (water 7 False) \<le> 8"
proof -
  have 1: "1 \<le> LiquidDepth (water 8 False)" and 2: "LiquidDepth (water 8 False) \<le> 8"
    and 3: "1 \<le> SpreadDecay (water 8 False)"
    and 4: "SpreadDecay (water 8 False) \<le> 2 \<or> source (water 8 False)
        \<or> sourceAround (water 8 False) origin ledge"
    by (simp_all add: water_def)
  have 5: "Placed (- 1, 0, 0) (LiquidBlock (water 7 False))
        \<in> set (issued ledge (the (tickLiquid noHarden (water 8 False) origin ledge)))"
    by (simp add: ledge_issued)
  from tickLiquid_depths [OF 1 2 3 4 tickLiquid_the 5] 1 2 3 4 5 show ?thesis
    by simp
qed

text \<open>
  The claim fails for a decay of 3: a liquid of depth 5 that nothing sustains is
  replaced by a liquid of depth \<open>5 - 2 * 3 = - 1\<close>.
\<close>

theorem tickLiquid_honey_negative:
  "map_option traceOf (tickLiquid noHarden (honey 5 False) origin
      (setBlock (everywhere Air) origin (LiquidBlock (honey 5 False))))
     = Some [Placed origin (LiquidBlock (honey (- 1) False))]"
  by (simp add: tickLiquid_def source_def sourceAround_def example_defs pos_defs
      Block_def PlaceBlock_def traceOf_def WithDepth_def)

subsection \<open>The liquid that spreads\<close>

text \<open>
  C6, as the code has it. For a sustained liquid, the check of the spread capacity, the
  search and the lateral flows (\<open>spread\<close>, lines 58 to 76) run on the liquid as read at
  the start of the tick, unless it is falling and cannot flow below: then they run on the
  liquid with depth 8, falling. Every lateral flow of the tick is a flow of that liquid,
  whose depth exceeds its decay.
\<close>

theorem tickLiquid_spread_liquid:
  assumes "source b \<or> sourceAround b pos w"
  shows "tickLiquid H b pos w =
     (case fall H b pos w (canFlowInto b w (Add pos (0, - 1, 0)) False) of
        Inl p \<Rightarrow> Some (Inl p)
      | Inr (l, w') \<Rightarrow>
          spread H (if LiquidFalling b \<and> \<not> canFlowInto b w (Add pos (0, - 1, 0)) False
                    then WithDepth b 8 True else b)
            pos w' (canFlowInto b w (Add pos (0, - 1, 0)) False))
   \<and> (\<forall>r l s t. tickLiquid H b pos w = Some r \<and> Flowed l s t False \<in> set (issued w r) \<longrightarrow>
         l = (if LiquidFalling b \<and> \<not> canFlowInto b w (Add pos (0, - 1, 0)) False
              then WithDepth b 8 True else b)
         \<and> SpreadDecay l < LiquidDepth l)"
proof (rule conjI; (intro allI impI)?)
  show "tickLiquid H b pos w =
     (case fall H b pos w (canFlowInto b w (Add pos (0, - 1, 0)) False) of
        Inl p \<Rightarrow> Some (Inl p)
      | Inr (l, w') \<Rightarrow>
          spread H (if LiquidFalling b \<and> \<not> canFlowInto b w (Add pos (0, - 1, 0)) False
                    then WithDepth b 8 True else b)
            pos w' (canFlowInto b w (Add pos (0, - 1, 0)) False))"
    by (rule tickLiquid_sustained [OF assms])
next
  fix r l s t
  assume a: "tickLiquid H b pos w = Some r \<and> Flowed l s t False \<in> set (issued w r)"
  define b' where "b' = (if LiquidFalling b \<and> \<not> canFlowInto b w (Add pos (0, - 1, 0)) False
                   then WithDepth b 8 True else b)"
  from a have r: "tickLiquid H b pos w = Some r" and e: "Flowed l s t False \<in> set (issued w r)"
    by simp_all
  from tickLiquid_sustained_trace [OF assms r refl b'_def]
  obtain fallen spreaded where t: "issued w r = fallen @ spreaded"
    "\<forall>e \<in> set fallen. flowEvent (WithDepth b 8 True) pos (Add pos (0, - 1, 0)) True e"
    "\<forall>e \<in> set spreaded. SpreadDecay b' < LiquidDepth b'
        \<and> (\<exists>t \<in> set (horizontal pos). flowEvent b' pos t False e)"
    by blast
  from e t(1) consider "Flowed l s t False \<in> set fallen" | "Flowed l s t False \<in> set spreaded"
    by auto
  then have "l = b' \<and> SpreadDecay l < LiquidDepth l"
  proof cases
    case 1
    with t(2) have "flowEvent (WithDepth b 8 True) pos (Add pos (0, - 1, 0)) True (Flowed l s t False)"
      by blast
    from flowEvent_Flowed [OF this] show ?thesis by simp
  next
    case 2
    with t(3) obtain t' where "SpreadDecay b' < LiquidDepth b'"
      "flowEvent b' pos t' False (Flowed l s t False)"
      by blast
    with flowEvent_Flowed [OF this(2)] show ?thesis by simp
  qed
  then show "l = (if LiquidFalling b \<and> \<not> canFlowInto b w (Add pos (0, - 1, 0)) False
              then WithDepth b 8 True else b) \<and> SpreadDecay l < LiquidDepth l"
    unfolding b'_def .
qed

text \<open>
  The theorem in the shaft: the water that flows to the west is the falling water of
  depth 8, not the water of depth 1 that was ticked.
\<close>

theorem tickLiquid_spread_liquid_witness:
  "(source (water 1 True) \<or> sourceAround (water 1 True) origin shaft)
   \<and> Flowed (water 8 True) origin (- 1, 0, 0) False
        \<in> set (issued shaft (the (tickLiquid noHarden (water 1 True) origin shaft)))
   \<and> water 8 True =
        (if LiquidFalling (water 1 True)
            \<and> \<not> canFlowInto (water 1 True) shaft (Add origin (0, - 1, 0)) False
         then WithDepth (water 1 True) 8 True else water 1 True)
   \<and> SpreadDecay (water 8 True) < LiquidDepth (water 8 True)"
proof -
  have 1: "source (water 1 True) \<or> sourceAround (water 1 True) origin shaft"
    by (simp add: sourceAround_def example_defs pos_defs Block_def)
  have 2: "Flowed (water 8 True) origin (- 1, 0, 0) False
        \<in> set (issued shaft (the (tickLiquid noHarden (water 1 True) origin shaft)))"
    by (simp add: shaft_issued)
  from tickLiquid_spread_liquid [of "water 1 True" origin shaft noHarden, OF 1]
    tickLiquid_the [of noHarden "water 1 True" origin shaft] 2
  have "water 8 True =
        (if LiquidFalling (water 1 True)
            \<and> \<not> canFlowInto (water 1 True) shaft (Add origin (0, - 1, 0)) False
         then WithDepth (water 1 True) 8 True else water 1 True)
   \<and> SpreadDecay (water 8 True) < LiquidDepth (water 8 True)"
    by blast
  with 1 2 show ?thesis by blast
qed

text \<open>
  The claim fails in the shaft: the water ticked has depth 1 and decay 1, so that the
  check on the liquid as read would stop the tick; the tick goes on with depth 8 and
  places water of depth 7 to the west.
\<close>

theorem tickLiquid_shaft_spreads:
  "LiquidDepth (water 1 True) \<le> SpreadDecay (water 1 True)
   \<and> map_option traceOf (tickLiquid noHarden (water 1 True) origin shaft)
     = Some [Flowed (water 8 True) origin (1, 0, 0) False,
             Flowed (water 8 True) origin (- 1, 0, 0) False,
             Placed (- 1, 0, 0) (LiquidBlock (water 7 False)),
             Flowed (water 8 True) origin (0, 0, 1) False,
             Flowed (water 8 True) origin (0, 0, - 1) False]"
  by code_simp

subsection \<open>The lateral spread\<close>

text \<open>
  C2. In a tick that returns, lateral flows happen only if the liquid is a source or
  could not flow below. When the liquid is sustained, they are the flows of the liquid
  that spreads, from the position ticked and not falling, into \<open>lateralTargets\<close> of the
  paths the search returns (the four neighbours of the same height for no path, else the
  first position of every path not longer than the shortest, none of the paths being
  empty), in this order and nothing else, if the depth of the liquid exceeds its decay and the liquid is a source or could
  not flow below; otherwise there is none.
\<close>

theorem tickLiquid_lateral:
  assumes "tickLiquid H b pos w = Some r"
  shows "(lateralFlows (issued w r) \<noteq> [] \<longrightarrow>
            source b \<or> \<not> canFlowInto b w (Add pos (0, - 1, 0)) False)
   \<and> ((source b \<or> sourceAround b pos w) \<and> \<not> isl r \<longrightarrow>
        (\<exists>b' w1 paths.
            fall H b pos w (canFlowInto b w (Add pos (0, - 1, 0)) False) = Inr (b', w1)
            \<and> calculateLiquidPaths b' pos w1 = Some paths \<and> [] \<notin> set paths
            \<and> lateralFlows (issued w r) =
               (if SpreadDecay b' < LiquidDepth b'
                   \<and> (source b \<or> \<not> canFlowInto b w (Add pos (0, - 1, 0)) False)
                then map (\<lambda>t. Flowed b' pos t False) (lateralTargets paths pos) else [])))"
proof (cases "source b \<or> sourceAround b pos w")
  case True
  define c where "c = canFlowInto b w (Add pos (0, - 1, 0)) False"
  define b' where "b' = (if LiquidFalling b \<and> \<not> c then WithDepth b 8 True else b)"
  from tickLiquid_sustained_trace [OF True assms c_def b'_def]
  obtain fallen spreaded where t: "issued w r = fallen @ spreaded"
    "lateralFlows fallen = []"
    "lateralFlows spreaded \<noteq> [] \<longrightarrow> source b \<or> \<not> c"
    "\<not> isl r \<longrightarrow> (\<exists>w1 paths. fall H b pos w c = Inr (b', w1)
            \<and> calculateLiquidPaths b' pos w1 = Some paths
            \<and> lateralFlows spreaded =
               (if SpreadDecay b' < LiquidDepth b' \<and> (source b \<or> \<not> c)
                then map (\<lambda>t. Flowed b' pos t False) (lateralTargets paths pos) else []))"
    by blast
  have l: "lateralFlows (issued w r) = lateralFlows spreaded"
    by (simp add: t(1,2))
  have 1: "lateralFlows (issued w r) \<noteq> [] \<longrightarrow> source b \<or> \<not> c"
    unfolding l by (rule t(3))
  have 2: "(source b \<or> sourceAround b pos w) \<and> \<not> isl r \<longrightarrow>
        (\<exists>b' w1 paths. fall H b pos w c = Inr (b', w1)
            \<and> calculateLiquidPaths b' pos w1 = Some paths \<and> [] \<notin> set paths
            \<and> lateralFlows (issued w r) =
               (if SpreadDecay b' < LiquidDepth b' \<and> (source b \<or> \<not> c)
                then map (\<lambda>t. Flowed b' pos t False) (lateralTargets paths pos) else []))"
  proof
    assume "(source b \<or> sourceAround b pos w) \<and> \<not> isl r"
    with t(4) obtain w1 paths where f: "fall H b pos w c = Inr (b', w1)"
      and p: "calculateLiquidPaths b' pos w1 = Some paths"
      and s: "lateralFlows spreaded =
               (if SpreadDecay b' < LiquidDepth b' \<and> (source b \<or> \<not> c)
                then map (\<lambda>t. Flowed b' pos t False) (lateralTargets paths pos) else [])"
      by blast
    have "[] \<notin> set paths"
      using calculateLiquidPaths_headed [OF p] by (auto simp add: headed_def)
    with f p s show "\<exists>b' w1 paths. fall H b pos w c = Inr (b', w1)
            \<and> calculateLiquidPaths b' pos w1 = Some paths \<and> [] \<notin> set paths
            \<and> lateralFlows (issued w r) =
               (if SpreadDecay b' < LiquidDepth b' \<and> (source b \<or> \<not> c)
                then map (\<lambda>t. Flowed b' pos t False) (lateralTargets paths pos) else [])"
      unfolding l by blast
  qed
  from 1 2 show ?thesis
    unfolding c_def by (rule conjI)
next
  case False
  with assms have "issued w r = [Placed pos
             (if LiquidDepth b - 4 \<le> 0 then Air
              else LiquidBlock (WithDepth b (LiquidDepth b - 2 * SpreadDecay b) False))]"
    by (auto simp add: tickLiquid_def issued_def traceOf_def PlaceBlock_def)
  with False show ?thesis by (simp add: lateralFlows_def)
qed

text \<open>
  The theorem on the ledge: the source flows to the west and to the east, where the
  two shortest paths start.
\<close>

theorem tickLiquid_lateral_witness:
  "(source (water 8 False) \<or> sourceAround (water 8 False) origin ledge)
   \<and> \<not> isl (the (tickLiquid noHarden (water 8 False) origin ledge))
   \<and> lateralFlows (issued ledge (the (tickLiquid noHarden (water 8 False) origin ledge)))
       = [Flowed (water 8 False) origin (- 1, 0, 0) False,
          Flowed (water 8 False) origin (1, 0, 0) False]
   \<and> (\<exists>b' w1 paths.
          fall noHarden (water 8 False) origin ledge
            (canFlowInto (water 8 False) ledge (Add origin (0, - 1, 0)) False) = Inr (b', w1)
          \<and> calculateLiquidPaths b' origin w1 = Some paths \<and> [] \<notin> set paths
          \<and> lateralFlows (issued ledge (the (tickLiquid noHarden (water 8 False) origin ledge))) =
             (if SpreadDecay b' < LiquidDepth b'
                 \<and> (source (water 8 False)
                      \<or> \<not> canFlowInto (water 8 False) ledge (Add origin (0, - 1, 0)) False)
              then map (\<lambda>t. Flowed b' origin t False) (lateralTargets paths origin) else []))"
proof -
  have 1: "source (water 8 False) \<or> sourceAround (water 8 False) origin ledge"
    by (simp add: source_def water_def)
  have 2: "lateralFlows (issued ledge (the (tickLiquid noHarden (water 8 False) origin ledge)))
       = [Flowed (water 8 False) origin (- 1, 0, 0) False,
          Flowed (water 8 False) origin (1, 0, 0) False]"
    by (simp add: ledge_issued lateralFlows_def)
  from tickLiquid_lateral [of noHarden "water 8 False" origin ledge, OF tickLiquid_the]
    1 ledge_returns
  have "\<exists>b' w1 paths.
          fall noHarden (water 8 False) origin ledge
            (canFlowInto (water 8 False) ledge (Add origin (0, - 1, 0)) False) = Inr (b', w1)
          \<and> calculateLiquidPaths b' origin w1 = Some paths \<and> [] \<notin> set paths
          \<and> lateralFlows (issued ledge (the (tickLiquid noHarden (water 8 False) origin ledge))) =
             (if SpreadDecay b' < LiquidDepth b'
                 \<and> (source (water 8 False)
                      \<or> \<not> canFlowInto (water 8 False) ledge (Add origin (0, - 1, 0)) False)
              then map (\<lambda>t. Flowed b' origin t False) (lateralTargets paths origin) else [])"
    by blast
  with 1 2 ledge_returns show ?thesis by blast
qed

subsection \<open>The failures and the panic of a flow\<close>

text \<open>
  C4, as the code has it. \<^verbatim>\<open>flowInto\<close> returns false exactly when (1) the flow is
  not falling and \<open>depth - decay \<le> 0\<close>, or (2) the target holds a liquid of another
  type, or (3) the target holds a block that is no liquid and is not liquid-removable.
  When it returns false it has placed and broken nothing. If (1) does not hold and the
  target holds a liquid, the only thing it has done is to call \<^verbatim>\<open>Harden\<close> of that
  liquid with the target and the source position: the blocks of the world, the one at
  the source position among them, are those \<^verbatim>\<open>Harden\<close> leaves. Otherwise, and so
  whenever (1) holds, \<^verbatim>\<open>Harden\<close> is not called and no block has changed.
\<close>

theorem flowInto_failure:
  "((\<exists>w'. flowInto H b src pos w falling = Inr (False, w')) \<longleftrightarrow>
      (\<not> falling \<and> LiquidDepth b - SpreadDecay b \<le> 0)
      \<or> (\<exists>l. Block w pos = LiquidBlock l \<and> LiquidType l \<noteq> LiquidType b)
      \<or> ((\<forall>l. Block w pos \<noteq> LiquidBlock l) \<and> asLiquidRemovable (Block w pos) = None))
   \<and> (\<forall>w'. flowInto H b src pos w falling = Inr (False, w') \<longrightarrow>
        (if (falling \<or> 0 < LiquidDepth b - SpreadDecay b) \<and> (\<exists>l. Block w pos = LiquidBlock l)
         then \<exists>l. Block w pos = LiquidBlock l \<and> LiquidType l \<noteq> LiquidType b
                \<and> trace w' = trace w @ [Flowed b src pos falling, Hardened l pos src]
                \<and> blocks w' = H l pos (blocks w) src
         else trace w' = trace w @ [Flowed b src pos falling] \<and> blocks w' = blocks w))"
  by (auto simp add: flowInto_def Let_def Block_def Harden_def PlaceBlock_def BreakBlock_def
      split: block.splits option.splits)

text \<open>
  The theorem for lava of depth 8 that flows into water: a failure.
\<close>

theorem flowInto_failure_witness:
  "Block (setBlock (everywhere Air) (1, 0, 0) (LiquidBlock (water 8 False))) (1, 0, 0)
      = LiquidBlock (water 8 False)
   \<and> LiquidType (water 8 False) \<noteq> LiquidType (lava 8 False)
   \<and> (\<exists>w'. flowInto noHarden (lava 8 False) origin (1, 0, 0)
          (setBlock (everywhere Air) (1, 0, 0) (LiquidBlock (water 8 False))) False = Inr (False, w'))"
  using flowInto_failure [of noHarden "lava 8 False" origin "(1, 0, 0)"
      "setBlock (everywhere Air) (1, 0, 0) (LiquidBlock (water 8 False))" False]
  by (simp add: example_defs Block_def)

text \<open>
  The claim fails where (1) and (2) meet: lava of depth 2 (decay 2) that flows, not
  falling, into water returns at the guard of the depth; \<^verbatim>\<open>Harden\<close> of the water is not
  called.
\<close>

theorem flowInto_guard_before_harden:
  "Block (setBlock (everywhere Air) (1, 0, 0) (LiquidBlock (water 8 False))) (1, 0, 0)
     = LiquidBlock (water 8 False)
   \<and> LiquidType (water 8 False) \<noteq> LiquidType (lava 2 False)
   \<and> flowTrace (flowInto noHarden (lava 2 False) origin (1, 0, 0)
        (setBlock (everywhere Air) (1, 0, 0) (LiquidBlock (water 8 False))) False)
     = [Flowed (lava 2 False) origin (1, 0, 0) False]"
  by (simp add: flowInto_def example_defs Block_def flowTrace_def traceOf_def)

text \<open>
  C9, as the code has it. \<^verbatim>\<open>flowInto\<close> panics if and only if the flow passes the guard
  of the depth (it is falling, or \<open>depth - decay > 0\<close>), the target holds no liquid, and
  the target is liquid-removable with drops without being an item. A tick and
  \<^verbatim>\<open>spreadOutwards\<close> panic with that panic only: \<^verbatim>\<open>path[0]\<close> is never read from an
  empty path.
\<close>

theorem flowInto_panics_iff:
  "(isl (flowInto H b src pos w falling) \<longleftrightarrow>
      (falling \<or> 0 < LiquidDepth b - SpreadDecay b)
      \<and> (\<forall>l. Block w pos \<noteq> LiquidBlock l)
      \<and> asLiquidRemovable (Block w pos) = Some True
      \<and> \<not> asItem (Block w pos))
   \<and> (\<forall>p. tickLiquid H b pos w = Some (Inl p) \<longrightarrow> (\<exists>w'. p = DropsWithoutItem w'))
   \<and> (\<forall>p. spreadOutwards H b pos w = Inl p \<longrightarrow> (\<exists>w'. p = DropsWithoutItem w'))"
proof (intro conjI allI impI)
  show "isl (flowInto H b src pos w falling) \<longleftrightarrow>
      (falling \<or> 0 < LiquidDepth b - SpreadDecay b)
      \<and> (\<forall>l. Block w pos \<noteq> LiquidBlock l)
      \<and> asLiquidRemovable (Block w pos) = Some True
      \<and> \<not> asItem (Block w pos)"
    by (auto simp add: flowInto_def Let_def Block_def split: block.splits option.splits)
next
  fix p assume p: "tickLiquid H b pos w = Some (Inl p)"
  show "\<exists>w'. p = DropsWithoutItem w'"
  proof (cases "source b \<or> sourceAround b pos w")
    case False
    with p show ?thesis by (auto simp add: tickLiquid_def split: if_splits)
  next
    case True
    from p show ?thesis
      unfolding tickLiquid_sustained [OF True]
      by (auto split: sum.splits dest: fall_panic spread_panic)
  qed
next
  fix p assume "spreadOutwards H b pos w = Inl p"
  then show "\<exists>w'. p = DropsWithoutItem w'"
    unfolding spreadOutwards_flowAll by (rule flowAll_panic)
qed

text \<open>
  The theorem for a source of water that flows into a block registered with drops that
  is no item: a panic.
\<close>

theorem flowInto_panics_iff_witness:
  "asLiquidRemovable (Block (setBlock (everywhere Air) (1, 0, 0) misregistered) (1, 0, 0)) = Some True
   \<and> \<not> asItem (Block (setBlock (everywhere Air) (1, 0, 0) misregistered) (1, 0, 0))
   \<and> isl (flowInto noHarden (water 8 False) origin (1, 0, 0)
            (setBlock (everywhere Air) (1, 0, 0) misregistered) False)"
  using flowInto_panics_iff [of noHarden "water 8 False" origin "(1, 0, 0)"
      "setBlock (everywhere Air) (1, 0, 0) misregistered" False]
  by (simp add: example_defs Block_def)

text \<open>
  The claim fails at the guard of the depth: water of depth 1 (decay 1) that flows, not
  falling, into the same block returns false before it looks at the block.
\<close>

theorem flowInto_guard_before_panic:
  "asLiquidRemovable (Block (setBlock (everywhere Air) (1, 0, 0) misregistered) (1, 0, 0)) = Some True
   \<and> \<not> asItem (Block (setBlock (everywhere Air) (1, 0, 0) misregistered) (1, 0, 0))
   \<and> \<not> isl (flowInto noHarden (water 1 False) origin (1, 0, 0)
               (setBlock (everywhere Air) (1, 0, 0) misregistered) False)"
  by (simp add: flowInto_def example_defs Block_def)

end
